theory Spec2Isabelle
  imports Complex_Main
begin

section \<open>Perception states of the task sequencer (perception_states.py)\<close>

text \<open>
  The module holds four smach states. This development embeds the three that the
  specification talks about: \<open>find_objects\<close>, \<open>do_visual_servoing\<close> and
  \<open>find_cavities\<close>. A state object is a record of its attributes, \<open>userdata\<close> slots are
  passed in and returned, and what the ROS callbacks deliver while the state polls is an
  explicit input.
\<close>

subsection \<open>Cavity messages and the merge loop of \<open>find_cavities.execute\<close>\<close>

text \<open>
  A \<open>Cavity\<close> message, reduced to the fields the state reads or writes. The matching
  error is a ROS float; it is modelled as a real number, so the not-a-number value is
  outside the model. The pose is opaque.
\<close>

record template_matching_error =
  matching_error :: real

record 'p cavity =
  object_name :: string
  pose :: 'p
  template_matching_error :: template_matching_error

abbreviation score :: "'p cavity \<Rightarrow> real" where
  "score c \<equiv> matching_error (template_matching_error c)"

text \<open>
  Lines 180 to 186: the inner loop \<open>for idx, c in enumerate(userdata.found_cavities)\<close>.
  It walks the list by index, never leaves early, overwrites the slot at \<open>idx\<close> when the
  new cavity has the same name and a strictly smaller error, and raises the flag
  \<open>exists\<close> whenever the names agree.
\<close>

function scan :: "'p cavity \<Rightarrow> nat \<Rightarrow> 'p cavity list \<Rightarrow> bool \<Rightarrow> 'p cavity list \<times> bool" where
  "scan cavity idx found_cavities exists =
     (if idx < length found_cavities then
        (let c = found_cavities ! idx in
         if object_name cavity = object_name c then
           scan cavity (Suc idx)
             (if score cavity < score c then found_cavities[idx := cavity] else found_cavities)
             True
         else scan cavity (Suc idx) found_cavities exists)
      else (found_cavities, exists))"
  by pat_completeness auto
termination
  by (relation "measure (\<lambda>(cavity, idx, found_cavities, exists). length found_cavities - idx)") auto

declare scan.simps [simp del]

text \<open>
  Lines 180 to 190: the body of the outer loop for one new cavity. When no entry carried
  its name, the cavity is appended if its error is strictly below the threshold.
\<close>

definition merge_one :: "real \<Rightarrow> 'p cavity \<Rightarrow> 'p cavity list \<Rightarrow> 'p cavity list" where
  "merge_one matching_threshold cavity found_cavities =
     (case scan cavity 0 found_cavities False of
        (found', exists) \<Rightarrow>
          if exists = False then
            (if score cavity < matching_threshold then found' @ [cavity] else found')
          else found')"

text \<open>Lines 179 to 190: the outer loop \<open>for cavity in local_found_cavities\<close>.\<close>

fun merge :: "real \<Rightarrow> 'p cavity list \<Rightarrow> 'p cavity list \<Rightarrow> 'p cavity list" where
  "merge matching_threshold [] found_cavities = found_cavities"
| "merge matching_threshold (cavity # local_found_cavities) found_cavities =
     merge matching_threshold local_found_cavities
       (merge_one matching_threshold cavity found_cavities)"

subsection \<open>What a state can observe and do\<close>

text \<open>
  The subscriber callbacks run on another thread and only overwrite attributes of the
  state object. The polling thread sees their effect when it next looks, so the
  environment of one wait is a script: the clock value taken before the wait, and for
  every pass of the polling loop what \<open>rospy.is_shutdown()\<close> answers, which messages
  the callbacks have stored since the previous pass, and the clock value read in that
  pass. Clock values are nanoseconds. A script that ends before the loop has left is a
  wait that is still going on. \<open>find_objects\<close> never asks for shutdown, so that
  field plays no part there. The statements after a polling loop read the attributes as
  the loop left them, and the calls into rospy (publishing, sleeping, logging) are taken
  to return normally.
\<close>

record 'm poll =
  shutdown :: bool
  deliveries :: "'m list"
  now :: int

record 'm cycle_env =
  start_time :: int
  polls :: "'m poll list"

text \<open>
  What a state does to the outside and to its own latched attributes, in program order:
  \<open>Clear a\<close> is the assignment of the empty value to attribute \<open>a\<close>, \<open>Publish t d\<close>
  sends \<open>d\<close> on topic \<open>t\<close>.
\<close>

datatype action = Clear string | Publish string string

text \<open>
  How a call of \<open>execute\<close> ends: it is still polling when its script is used up, it
  raises because it reads an attribute that was never assigned, or it returns.
\<close>

datatype 'a result = Pending | AttributeError | Returned 'a

record 'u exit =
  outcome :: string
  userdata :: 'u
  trace :: "action list"

subsection \<open>\<open>find_objects\<close>\<close>

text \<open>
  \<open>self.object_list\<close> is not assigned by \<open>__init__\<close>: until the callback or
  \<open>execute\<close> writes it, reading it raises. Afterwards it is \<open>None\<close> or an
  \<open>ObjectList\<close> message, of which only \<open>objects\<close> is read. \<open>self.event_msg\<close> is
  read only after line 40 has assigned it, so it is a plain string here.
\<close>

datatype 'o latched = Unassigned | NoneValue | ObjectList (objects: "'o list")

record 'o find_objects =
  retries :: int
  object_list :: "'o latched"
  event_msg :: string

datatype 'o detector_msg = Object_list "'o list" | Event_out string

definition EVENT_IN_TOPIC :: string where
  "EVENT_IN_TOPIC = ''/mcr_perception/object_detector/event_in''"

text \<open>Lines 30 to 34: \<open>object_list_cb\<close> and \<open>event_out_cb\<close>.\<close>

fun callback :: "'o find_objects \<Rightarrow> 'o detector_msg \<Rightarrow> 'o find_objects" where
  "callback self (Object_list objs) = self\<lparr>object_list := ObjectList objs\<rparr>"
| "callback self (Event_out d) = self\<lparr>event_msg := d\<rparr>"

definition find_objects_timeout :: int where
  "find_objects_timeout = 10000000000"

text \<open>Lines 48 to 57: the polling loop \<open>while(True)\<close>.\<close>

fun wait_for_objects ::
  "int \<Rightarrow> 'o detector_msg poll list \<Rightarrow> 'o find_objects \<Rightarrow> 'o find_objects option" where
  "wait_for_objects start [] self = None"
| "wait_for_objects start (p # ps) self =
     (let self = foldl callback self (deliveries p) in
      if event_msg self = ''e_done'' \<and> object_list self \<noteq> NoneValue then Some self
      else if event_msg self = ''e_failed'' then Some self
      else if now p - start > find_objects_timeout then Some self
      else wait_for_objects start ps self)"

text \<open>
  Lines 59 and 66: \<open>not self.object_list or len(self.object_list.objects) <= 0\<close>. A
  message object is true in a condition, so the first disjunct holds for \<open>None\<close> only.
  The answer is absent when the attribute was never assigned.
\<close>

fun no_objects :: "'o latched \<Rightarrow> bool option" where
  "no_objects Unassigned = None"
| "no_objects NoneValue = Some True"
| "no_objects (ObjectList objs) = Some (length objs \<le> 0)"

text \<open>
  Lines 38 to 64: \<open>for i in range(self.retries)\<close>, from attempt \<open>i\<close> on. The bound
  \<open>n\<close> is \<open>self.retries\<close>; attempt \<open>i\<close> polls against the script \<open>env i\<close>.
\<close>

function attempts ::
  "nat \<Rightarrow> int \<Rightarrow> (nat \<Rightarrow> 'o detector_msg cycle_env) \<Rightarrow> 'o find_objects \<Rightarrow> action list
    \<Rightarrow> ('o find_objects \<times> action list) result" where
  "attempts i n env self tr =
     (if int i < n then
        (let self = self\<lparr>object_list := NoneValue, event_msg := ''''\<rparr>;
             tr = tr @ [Clear ''object_list'', Clear ''event_msg'',
                        Publish EVENT_IN_TOPIC ''e_trigger'']
         in case wait_for_objects (start_time (env i)) (polls (env i)) self of
              None \<Rightarrow> Pending
            | Some self \<Rightarrow>
                (case no_objects (object_list self) of
                   None \<Rightarrow> AttributeError
                 | Some True \<Rightarrow> attempts (Suc i) n env self tr
                 | Some False \<Rightarrow> Returned (self, tr)))
      else Returned (self, tr))"
  by pat_completeness auto
termination
  by (relation "measure (\<lambda>(i, n, env, self, tr). nat (n - int i))") auto

declare attempts.simps [simp del]

text \<open>
  Lines 36 to 71. The value of \<open>userdata.found_objects\<close> at entry is an argument, to
  show what becomes of it. The state object is returned beside the exit.
\<close>

definition find_objects_execute ::
  "'o find_objects \<Rightarrow> (nat \<Rightarrow> 'o detector_msg cycle_env) \<Rightarrow> 'o list option
    \<Rightarrow> ('o list option exit \<times> 'o find_objects) result" where
  "find_objects_execute self env found_objects =
     (let found_objects = None in
      case attempts 0 (retries self) env self [] of
        Pending \<Rightarrow> Pending
      | AttributeError \<Rightarrow> AttributeError
      | Returned (self, tr) \<Rightarrow>
          (case no_objects (object_list self) of
             None \<Rightarrow> AttributeError
           | Some True \<Rightarrow>
               Returned (\<lparr>outcome = ''no_objects_found'', userdata = found_objects,
                           trace = tr\<rparr>, self)
           | Some False \<Rightarrow>
               Returned (\<lparr>outcome = ''objects_found'',
                           userdata = Some (objects (object_list self)),
                           trace = tr\<rparr>, self)))"

subsection \<open>\<open>do_visual_servoing\<close>\<close>

text \<open>
  The service call either raises \<open>rospy.ServiceException\<close> or answers with an error
  code. Lines 111 to 127: the chain of comparisons has no final \<open>else\<close>, so for any
  other code the method ends without a \<open>return\<close> statement and yields \<open>None\<close>, which is
  the absent outcome here. The second component is \<open>userdata.vscount\<close>.
\<close>

datatype service_call = ServiceException | Response (error_code: int)

definition do_visual_servoing_outcomes :: "string list" where
  "do_visual_servoing_outcomes = [''succeeded'', ''failed'', ''timeout'', ''lost_object'']"

definition do_visual_servoing_execute :: "service_call \<Rightarrow> int \<Rightarrow> string option \<times> int" where
  "do_visual_servoing_execute response vscount =
     (case response of
        ServiceException \<Rightarrow> (Some ''failed'', 0)
      | Response code \<Rightarrow>
          if code = 0 then (Some ''succeeded'', 0)
          else if code = - 1 then (Some ''failed'', vscount)
          else if code = - 2 then (Some ''timeout'', vscount)
          else if code = - 3 then (Some ''lost_object'', vscount)
          else (None, vscount))"

subsection \<open>\<open>find_cavities\<close>\<close>

text \<open>
  An entry of \<open>userdata.selected_objects\<close>; only its name is read. The attribute
  \<open>tf_listener\<close> is represented by the function \<open>transformPose\<close> handed to
  \<open>execute\<close>: the call number, the target frame and the pose give the new pose, or
  nothing when one of the three caught tf exceptions is raised.
\<close>

record object =
  name :: string

record 'p find_cavities =
  cavity :: "'p cavity option"
  frame_id :: "string option"
  matching_threshold :: real

definition OBJECT_NAME_TOPIC :: string where
  "OBJECT_NAME_TOPIC = ''/mcr_perception/cavity_template_publisher/input/object_name''"

definition CONTOUR_FINDER_EVENT_IN :: string where
  "CONTOUR_FINDER_EVENT_IN = ''/mcr_perception/contour_finder/input/event_in''"

definition find_cavities_timeout :: int where
  "find_cavities_timeout = 5000000000"

text \<open>Lines 146 and 147.\<close>

definition cavity_cb :: "'p find_cavities \<Rightarrow> 'p cavity \<Rightarrow> 'p find_cavities" where
  "cavity_cb self c = self\<lparr>cavity := Some c\<rparr>"

datatype 'a step = Return_timeout | Continue 'a

text \<open>
  Lines 158 to 169: the polling loop \<open>while not rospy.is_shutdown()\<close> for the object
  \<open>obj\<close>. When the loop condition fails the loop is left with nothing appended; a
  latched cavity is renamed to the object's name and appended to
  \<open>local_found_cavities\<close>; an exceeded deadline returns from \<open>execute\<close>.
\<close>

fun await_cavity ::
  "object \<Rightarrow> int \<Rightarrow> 'p cavity poll list \<Rightarrow> 'p find_cavities \<Rightarrow> 'p cavity list
    \<Rightarrow> ('p find_cavities \<times> 'p cavity list) step option" where
  "await_cavity obj start [] self local_found_cavities = None"
| "await_cavity obj start (p # ps) self local_found_cavities =
     (if shutdown p then Some (Continue (self, local_found_cavities))
      else
        (let self = foldl cavity_cb self (deliveries p) in
         case cavity self of
           Some c \<Rightarrow>
             (let c = c\<lparr>object_name := name obj\<rparr> in
              Some (Continue (self\<lparr>cavity := Some c\<rparr>, local_found_cavities @ [c])))
         | None \<Rightarrow>
             if now p - start > find_cavities_timeout then Some Return_timeout
             else await_cavity obj start ps self local_found_cavities))"

text \<open>
  Lines 151 to 169: \<open>for obj in userdata.selected_objects\<close>. The object at position
  \<open>i\<close> polls against the script \<open>env i\<close>.
\<close>

fun collect ::
  "object list \<Rightarrow> nat \<Rightarrow> (nat \<Rightarrow> 'p cavity cycle_env) \<Rightarrow> 'p find_cavities \<Rightarrow> 'p cavity list
    \<Rightarrow> action list \<Rightarrow> ('p cavity list step \<times> action list) option" where
  "collect [] i env self local_found_cavities tr = Some (Continue local_found_cavities, tr)"
| "collect (obj # objs) i env self local_found_cavities tr =
     (let self = self\<lparr>cavity := None\<rparr>;
          tr = tr @ [Clear ''cavity'', Publish OBJECT_NAME_TOPIC (name obj),
                     Publish CONTOUR_FINDER_EVENT_IN ''e_trigger'']
      in case await_cavity obj (start_time (env i)) (polls (env i)) self
                local_found_cavities of
           None \<Rightarrow> None
         | Some Return_timeout \<Rightarrow> Some (Return_timeout, tr)
         | Some (Continue (self, local_found_cavities)) \<Rightarrow>
             collect objs (Suc i) env self local_found_cavities tr)"

text \<open>Lines 172 to 176: a pose that cannot be transformed is left as it is.\<close>

fun transform_poses ::
  "(nat \<Rightarrow> string \<Rightarrow> 'p \<Rightarrow> 'p option) \<Rightarrow> string \<Rightarrow> nat \<Rightarrow> 'p cavity list \<Rightarrow> 'p cavity list" where
  "transform_poses transformPose frame k [] = []"
| "transform_poses transformPose frame k (c # cs) =
     (case transformPose k frame (pose c) of
        Some p \<Rightarrow> c\<lparr>pose := p\<rparr>
      | None \<Rightarrow> c) # transform_poses transformPose frame (Suc k) cs"

text \<open>
  Lines 149 to 195. The exit carries \<open>userdata.found_cavities\<close>. The attribute
  \<open>self.cavity\<close> left behind is not returned: every later cycle clears it before it
  reads it.
\<close>

definition find_cavities_execute ::
  "'p find_cavities \<Rightarrow> (nat \<Rightarrow> string \<Rightarrow> 'p \<Rightarrow> 'p option) \<Rightarrow> (nat \<Rightarrow> 'p cavity cycle_env)
    \<Rightarrow> object list \<Rightarrow> 'p cavity list \<Rightarrow> 'p cavity list exit result" where
  "find_cavities_execute self transformPose env selected_objects found_cavities =
     (case collect selected_objects 0 env self [] [] of
        None \<Rightarrow> Pending
      | Some (Return_timeout, tr) \<Rightarrow>
          Returned \<lparr>outcome = ''timeout'', userdata = found_cavities, trace = tr\<rparr>
      | Some (Continue local_found_cavities, tr) \<Rightarrow>
          (let local_found_cavities =
                 (case frame_id self of
                    None \<Rightarrow> local_found_cavities
                  | Some frame \<Rightarrow>
                      if frame = [] then local_found_cavities
                      else transform_poses transformPose frame 0 local_found_cavities);
               found_cavities = merge (matching_threshold self) local_found_cavities
                                  found_cavities
           in Returned
                \<lparr>outcome = (if length found_cavities = length selected_objects
                             then ''succeeded'' else ''not_all_cavities_found''),
                 userdata = found_cavities, trace = tr\<rparr>))"

subsection \<open>Notions of the specification\<close>

text \<open>
  The effect of the inner loop on one entry: it is overwritten by the new cavity when the
  names agree and the new error is strictly smaller.
\<close>

definition better :: "'p cavity \<Rightarrow> 'p cavity \<Rightarrow> 'p cavity" where
  "better new c =
     (if object_name new = object_name c \<and> score new < score c then new else c)"

text \<open>
  The invariant of a result set, relative to the list of all candidates that were ever
  handed to the merge loop for it: names are unique, every entry is one of the observed
  candidates, lies below the threshold and is minimal among the observed candidates of
  its name that lie below the threshold, and every name with an observation below the
  threshold has an entry.
\<close>

definition result_set_invariant :: "real \<Rightarrow> 'p cavity list \<Rightarrow> 'p cavity list \<Rightarrow> bool" where
  "result_set_invariant threshold observed found \<longleftrightarrow>
     distinct (map object_name found) \<and>
     (\<forall>e\<in>set found. e \<in> set observed \<and> score e < threshold \<and>
        (\<forall>c\<in>set observed. object_name c = object_name e \<and> score c < threshold
           \<longrightarrow> score e \<le> score c)) \<and>
     (\<forall>c\<in>set observed. score c < threshold \<longrightarrow> object_name c \<in> set (map object_name found))"

text \<open>
  The first two parts of the invariant on their own, as the specification words it: no
  two entries share a name, and every entry holds the minimal error observed below the
  threshold for its name.
\<close>

definition unique_minimal :: "real \<Rightarrow> 'p cavity list \<Rightarrow> 'p cavity list \<Rightarrow> bool" where
  "unique_minimal threshold observed found \<longleftrightarrow>
     distinct (map object_name found) \<and>
     (\<forall>e\<in>set found. e \<in> set observed \<and> score e < threshold \<and>
        (\<forall>c\<in>set observed. object_name c = object_name e \<and> score c < threshold
           \<longrightarrow> score e \<le> score c))"

text \<open>
  A trace respects the order of reset and trigger for a trigger topic and a list of
  latched attributes when every message on the topic comes after all the attributes were
  cleared, later than any earlier message on the topic. The third argument collects the
  attributes cleared since the last trigger.
\<close>

fun cleared_before_trigger :: "string \<Rightarrow> string list \<Rightarrow> string list \<Rightarrow> action list \<Rightarrow> bool" where
  "cleared_before_trigger topic latches seen [] = True"
| "cleared_before_trigger topic latches seen (Clear a # tr) =
     cleared_before_trigger topic latches (a # seen) tr"
| "cleared_before_trigger topic latches seen (Publish t d # tr) =
     (if t = topic then set latches \<subseteq> set seen \<and> cleared_before_trigger topic latches [] tr
      else cleared_before_trigger topic latches seen tr)"

text \<open>The messages of a trace that went out on a topic.\<close>

fun published :: "string \<Rightarrow> action list \<Rightarrow> string list" where
  "published topic [] = []"
| "published topic (Clear a # tr) = published topic tr"
| "published topic (Publish t d # tr) =
     (if t = topic then d # published topic tr else published topic tr)"

text \<open>
  One attempt of \<open>find_objects\<close> on its own: lines 39 to 57 against one script, which
  gives the state object as the polling loop leaves it.
\<close>

definition attempt :: "'o detector_msg cycle_env \<Rightarrow> 'o find_objects \<Rightarrow> 'o find_objects option" where
  "attempt e self =
     wait_for_objects (start_time e) (polls e) (self\<lparr>object_list := NoneValue, event_msg := ''''\<rparr>)"

text \<open>
  Whether an attempt ends with nothing to report, which is what line 59 asks: the answer
  is absent while the attempt is still polling.
\<close>

definition attempt_empty :: "'o detector_msg cycle_env \<Rightarrow> 'o find_objects \<Rightarrow> bool option" where
  "attempt_empty e self =
     (case attempt e self of None \<Rightarrow> None | Some s \<Rightarrow> no_objects (object_list s))"

text \<open>What one attempt of \<open>find_objects\<close> does before it polls (lines 39 to 43).\<close>

definition attempt_actions :: "action list" where
  "attempt_actions =
     [Clear ''object_list'', Clear ''event_msg'', Publish EVENT_IN_TOPIC ''e_trigger'']"

text \<open>
  One cycle of \<open>find_cavities\<close> on its own: lines 152 to 169 for one object against one
  script, with nothing collected before. What the cycle does before it polls (lines 152
  to 154).
\<close>

definition subject_wait ::
  "'p find_cavities \<Rightarrow> object \<Rightarrow> 'p cavity cycle_env
    \<Rightarrow> ('p find_cavities \<times> 'p cavity list) step option" where
  "subject_wait self obj e =
     await_cavity obj (start_time e) (polls e) (self\<lparr>cavity := None\<rparr>) []"

definition cycle_actions :: "object \<Rightarrow> action list" where
  "cycle_actions obj =
     [Clear ''cavity'', Publish OBJECT_NAME_TOPIC (name obj),
      Publish CONTOUR_FINDER_EVENT_IN ''e_trigger'']"

text \<open>A candidate with an opaque pose, for the worked examples.\<close>

definition candidate :: "string \<Rightarrow> real \<Rightarrow> unit cavity" where
  "candidate n s = \<lparr>object_name = n, pose = (), template_matching_error = \<lparr>matching_error = s\<rparr>\<rparr>"

text \<open>
  A script for the worked examples: the messages \<open>ms\<close> are there at the first poll, a
  tenth of a second after the start, and the second poll comes after 10.1 seconds, past
  both deadlines.
\<close>

definition script :: "'m list \<Rightarrow> 'm cycle_env" where
  "script ms =
     \<lparr>start_time = 0,
      polls = [\<lparr>shutdown = False, deliveries = ms, now = 100000000\<rparr>,
               \<lparr>shutdown = False, deliveries = [], now = 10100000000\<rparr>]\<rparr>"

section \<open>Properties\<close>

subsection \<open>The merge loop in closed form\<close>

text \<open>
  The index loop maps \<open>better\<close> over the entries it has not yet visited and reports
  whether one of them carries the name of the new cavity.
\<close>

lemma scan_eq:
  "idx \<le> length f \<Longrightarrow> scan c idx f ex =
     (take idx f @ map (better c) (drop idx f),
      ex \<or> (\<exists>e\<in>set (drop idx f). object_name c = object_name e))"
proof (induction c idx f ex rule: scan.induct)
  case (1 new idx f ex)
  show ?case
  proof (cases "idx < length f")
    case False
    with 1(3) show ?thesis by (subst scan.simps) simp
  next
    case True
    then have d: "drop idx f = f ! idx # drop (Suc idx) f"
      by (simp add: Cons_nth_drop_Suc)
    have t: "take (Suc idx) f = take idx f @ [f ! idx]"
      using True by (simp add: take_Suc_conv_app_nth)
    show ?thesis
    proof (cases "object_name new = object_name (f ! idx)")
      case False
      with 1(2)[OF True refl False] True d t show ?thesis
        by (subst scan.simps) (simp add: better_def)
    next
      case same: True
      let ?f' = "if score new < score (f ! idx) then f[idx := new] else f"
      have "scan new (Suc idx) ?f' True =
        (take (Suc idx) ?f' @ map (better new) (drop (Suc idx) ?f'),
          True \<or> (\<exists>e\<in>set (drop (Suc idx) ?f'). object_name new = object_name e))"
        using 1(1)[OF True refl same] True by simp
      moreover have "take (Suc idx) ?f' = take idx f @ [better new (f ! idx)]"
        using True same by (simp add: better_def take_Suc_conv_app_nth)
      moreover have "drop (Suc idx) ?f' = drop (Suc idx) f" by simp
      ultimately show ?thesis using True same d
        by (subst scan.simps) (simp add: better_def Let_def)
    qed
  qed
qed

lemma better_other: "object_name c \<noteq> object_name e \<Longrightarrow> better c e = e"
  by (simp add: better_def)

lemma better_name: "object_name (better c e) = object_name e"
  by (simp add: better_def)

lemma map_better_absent:
  "\<forall>e\<in>set f. object_name e \<noteq> object_name c \<Longrightarrow> map (better c) f = f"
  by (induction f) (auto simp: better_def)

lemma merge_one_eq:
  "merge_one thr c f =
     (if \<exists>e\<in>set f. object_name e = object_name c then map (better c) f
      else if score c < thr then f @ [c] else f)"
proof -
  have s: "scan c 0 f False = (map (better c) f, \<exists>e\<in>set f. object_name c = object_name e)"
    using scan_eq[of 0 f c False] by simp
  show ?thesis
  proof (cases "\<exists>e\<in>set f. object_name e = object_name c")
    case True
    then have "\<exists>e\<in>set f. object_name c = object_name e" by metis
    with True s show ?thesis by (simp add: merge_one_def)
  next
    case False
    then have n: "\<not> (\<exists>e\<in>set f. object_name c = object_name e)" by metis
    from False have "map (better c) f = f" by (intro map_better_absent) blast
    with False n s show ?thesis by (simp add: merge_one_def)
  qed
qed

lemma merge_append: "merge thr (xs @ ys) f = merge thr ys (merge thr xs f)"
  by (induction xs arbitrary: f) simp_all

lemma length_merge_one_present:
  "\<exists>e\<in>set f. object_name e = object_name c \<Longrightarrow> length (merge_one thr c f) = length f"
  by (simp add: merge_one_eq)

lemma map_better_distinct_keep:
  "distinct (map object_name f) \<Longrightarrow> i < length f \<Longrightarrow> object_name (f ! i) = object_name c
    \<Longrightarrow> \<not> score c < score (f ! i) \<Longrightarrow> map (better c) f = f"
proof -
  assume d: "distinct (map object_name f)" and i: "i < length f"
    and n: "object_name (f ! i) = object_name c" and s: "\<not> score c < score (f ! i)"
  have "\<And>j. j < length f \<Longrightarrow> better c (f ! j) = f ! j"
  proof -
    fix j assume j: "j < length f"
    show "better c (f ! j) = f ! j"
    proof (cases "j = i")
      case True with s show ?thesis by (simp add: better_def)
    next
      case False
      with d i j have "object_name (f ! j) \<noteq> object_name (f ! i)"
        by (metis distinct_conv_nth length_map nth_map)
      with n show ?thesis by (simp add: better_def)
    qed
  qed
  then show ?thesis by (simp add: list_eq_iff_nth_eq)
qed

lemma merge_one_nth:
  "i < length f \<Longrightarrow> i < length (merge_one thr c f) \<and> merge_one thr c f ! i = better c (f ! i)"
proof (cases "\<exists>e\<in>set f. object_name e = object_name c")
  case True
  assume "i < length f"
  with True show ?thesis by (simp add: merge_one_eq)
next
  case False
  assume i: "i < length f"
  then have "f ! i \<in> set f" by simp
  with False have "object_name c \<noteq> object_name (f ! i)" by metis
  then have "better c (f ! i) = f ! i" by (rule better_other)
  with False i show ?thesis by (simp add: merge_one_eq nth_append)
qed

lemma merge_keeps:
  "i < length f \<Longrightarrow>
   \<forall>c\<in>set xs. object_name c = object_name (f ! i) \<longrightarrow> score (f ! i) \<le> score c \<Longrightarrow>
   i < length (merge thr xs f) \<and> merge thr xs f ! i = f ! i"
proof (induction xs arbitrary: f)
  case Nil
  then show ?case by simp
next
  case (Cons c cs)
  from Cons.prems(2) have "object_name c = object_name (f ! i) \<longrightarrow> \<not> score c < score (f ! i)"
    by auto
  then have b: "better c (f ! i) = f ! i" by (auto simp: better_def)
  from merge_one_nth[OF Cons.prems(1), of thr c] b
  have l: "i < length (merge_one thr c f)" and n: "merge_one thr c f ! i = f ! i" by simp_all
  from Cons.prems(2) n
  have "\<forall>x\<in>set cs. object_name x = object_name (merge_one thr c f ! i)
          \<longrightarrow> score (merge_one thr c f ! i) \<le> score x" by simp
  from Cons.IH[OF l this] n show ?case by simp
qed

lemma set_merge_one: "set (merge_one thr c f) \<subseteq> insert c (set f)"
  by (auto simp: merge_one_eq better_def)

lemma set_merge: "set (merge thr xs f) \<subseteq> set f \<union> set xs"
proof (induction xs arbitrary: f)
  case Nil
  then show ?case by simp
next
  case (Cons c cs)
  from Cons.IH[of "merge_one thr c f"] set_merge_one[of thr c f]
  show ?case by auto
qed

lemma merge_one_enters:
  assumes "score a < thr"
    and "\<forall>e\<in>set f. object_name e = object_name a \<longrightarrow> score a < score e"
  shows "a \<in> set (merge_one thr a f)"
proof (cases "\<exists>e\<in>set f. object_name e = object_name a")
  case True
  then obtain e where e: "e \<in> set f" "object_name e = object_name a" by blast
  with assms(2) have "better a e = a" by (simp add: better_def)
  with e(1) have "a \<in> set (map (better a) f)" by (metis image_eqI set_map)
  with True show ?thesis by (simp add: merge_one_eq)
next
  case False
  with assms(1) show ?thesis by (simp add: merge_one_eq)
qed

lemma strict_winner_enters:
  assumes thr: "score a < thr"
    and low: "\<forall>e\<in>set f \<union> set xs \<union> set zs. object_name e = object_name a \<longrightarrow> score a < score e"
  shows "a \<in> set (merge thr (xs @ a # zs) f)"
proof -
  let ?g = "merge thr xs f"
  let ?h = "merge_one thr a ?g"
  have "\<forall>e\<in>set ?g. object_name e = object_name a \<longrightarrow> score a < score e"
    using low set_merge[of thr xs f] by blast
  with thr have "a \<in> set ?h" by (rule merge_one_enters)
  then obtain i where i: "i < length ?h" "?h ! i = a" by (auto simp: in_set_conv_nth)
  have "\<forall>c\<in>set zs. object_name c = object_name (?h ! i) \<longrightarrow> score (?h ! i) \<le> score c"
    using low i(2) by auto
  from merge_keeps[OF i(1) this, of thr] i(2)
  have "i < length (merge thr zs ?h)" "merge thr zs ?h ! i = a" by simp_all
  then have "a \<in> set (merge thr zs ?h)" by (metis nth_mem)
  then show ?thesis by (simp add: merge_append)
qed

lemma merge_batch_position:
  assumes i: "i < length found" and n: "object_name (found ! i) = object_name c"
    and others: "\<forall>x\<in>set xs \<union> set zs. object_name x \<noteq> object_name c"
  shows "i < length (merge thr (xs @ c # zs) found) \<and>
         merge thr (xs @ c # zs) found ! i = (if score c < score (found ! i) then c else found ! i)"
proof -
  let ?g = "merge thr xs found"
  have "\<forall>x\<in>set xs. object_name x = object_name (found ! i) \<longrightarrow> score (found ! i) \<le> score x"
    using others n by auto
  from merge_keeps[OF i this, of thr] have g: "i < length ?g" "?g ! i = found ! i" by simp_all
  let ?h = "merge_one thr c ?g"
  from merge_one_nth[OF g(1), of thr c] g(2) n
  have h: "i < length ?h" "?h ! i = (if score c < score (found ! i) then c else found ! i)"
    by (simp_all add: better_def)
  have "object_name (?h ! i) = object_name c" using h(2) n by simp
  then have "\<forall>x\<in>set zs. object_name x = object_name (?h ! i) \<longrightarrow> score (?h ! i) \<le> score x"
    using others by auto
  from merge_keeps[OF h(1) this, of thr] h(2) show ?thesis by (simp add: merge_append)
qed

lemma merge_batch_accept:
  assumes absent: "object_name c \<notin> set (map object_name found)"
    and others: "\<forall>x\<in>set xs \<union> set zs. object_name x \<noteq> object_name c"
  shows "c \<in> set (merge thr (xs @ c # zs) found) \<longleftrightarrow> score c < thr"
proof -
  have nf: "\<forall>e\<in>set found. object_name e \<noteq> object_name c"
    using absent by (metis image_eqI set_map)
  show ?thesis
  proof
  assume "score c < thr"
  moreover have "\<forall>e\<in>set found \<union> set xs \<union> set zs. object_name e = object_name c \<longrightarrow> score c < score e"
      using nf others by auto
    ultimately show "c \<in> set (merge thr (xs @ c # zs) found)" by (rule strict_winner_enters)
  next
    assume in_result: "c \<in> set (merge thr (xs @ c # zs) found)"
    show "score c < thr"
    proof (rule ccontr)
      assume nt: "\<not> score c < thr"
      let ?g = "merge thr xs found"
      have g: "\<forall>e\<in>set ?g. object_name e \<noteq> object_name c"
        using set_merge[of thr xs found] nf others by auto
      then have "merge_one thr c ?g = ?g" using nt by (simp add: merge_one_eq)
      then have "merge thr (xs @ c # zs) found = merge thr zs ?g" by (simp add: merge_append)
      with in_result set_merge[of thr zs ?g] have "c \<in> set ?g \<union> set zs" by auto
      with g others show False by auto
    qed
  qed
qed

lemma later_no_better:
  assumes "object_name a = object_name b" and "score a \<le> score b"
  shows "merge_one thr b (merge_one thr a f) = merge_one thr a f"
proof (cases "\<exists>e\<in>set f. object_name e = object_name a")
  case True
  then have m: "merge_one thr a f = map (better a) f" by (simp add: merge_one_eq)
  from True have "\<exists>e\<in>set (map (better a) f). object_name e = object_name b"
    using assms(1) by (auto simp: better_name)
  then have "merge_one thr b (map (better a) f) = map (better b) (map (better a) f)"
    by (simp only: merge_one_eq if_True)
  moreover have "better b (better a e) = better a e" for e
    using assms by (auto simp: better_def)
  ultimately show ?thesis using m by simp
next
  case False
  show ?thesis
  proof (cases "score a < thr")
    case True
    with False have m: "merge_one thr a f = f @ [a]" by (simp add: merge_one_eq)
    from False assms(1) have "map (better b) f = f"
      by (intro map_better_absent) metis
    moreover have "better b a = a" using assms by (simp add: better_def)
    ultimately show ?thesis using m assms(1) by (simp add: merge_one_eq)
  next
    case nt: False
    with False have m: "merge_one thr a f = f" by (simp add: merge_one_eq)
    from nt assms(2) have "\<not> score b < thr" by simp
    with False assms(1) show ?thesis unfolding m by (simp add: merge_one_eq)
  qed
qed

lemma earlier_worse:
  assumes "object_name a = object_name b" and "score a < score b"
  shows "merge_one thr a (merge_one thr b f) = merge_one thr a f"
proof (cases "\<exists>e\<in>set f. object_name e = object_name a")
  case True
  then have t: "\<exists>e\<in>set f. object_name e = object_name b" using assms(1) by simp
  then have m: "merge_one thr b f = map (better b) f" by (simp add: merge_one_eq)
  from True have "\<exists>e\<in>set (map (better b) f). object_name e = object_name a"
    by (auto simp: better_name)
  then have "merge_one thr a (map (better b) f) = map (better a) (map (better b) f)"
    by (simp only: merge_one_eq if_True)
  moreover have "better a (better b e) = better a e" for e
    using assms by (auto simp: better_def)
  ultimately show ?thesis using m True by (simp add: merge_one_eq)
next
  case False
  then have fb: "\<not> (\<exists>e\<in>set f. object_name e = object_name b)" using assms(1) by simp
  show ?thesis
  proof (cases "score b < thr")
    case True
    with fb have m: "merge_one thr b f = f @ [b]" by (simp add: merge_one_eq)
    from False have "map (better a) f = f"
      by (intro map_better_absent) metis
    moreover have "better a b = a" using assms by (simp add: better_def)
    moreover from True assms(2) have "score a < thr" by simp
    ultimately show ?thesis using m assms(1) False by (simp add: merge_one_eq)
  next
    case nt: False
    with fb have m: "merge_one thr b f = f" by (simp add: merge_one_eq)
    show ?thesis unfolding m ..
  qed
qed

subsection \<open>Replacement and acceptance of one incoming cavity\<close>

text \<open>
  Claim C1. When the new cavity \<open>c\<close> is processed and the result set holds an entry
  of the same name at position \<open>i\<close>, the set keeps its length, position \<open>i\<close> holds
  \<open>c\<close> if the error of \<open>c\<close> is strictly smaller than that of the entry and the entry
  itself otherwise, entries of other names are untouched, and when names are unique and
  \<open>c\<close> is not strictly better the whole set is unchanged, so \<open>c\<close> is dropped. The same
  holds of position \<open>i\<close> after a whole batch in which \<open>c\<close> is the only candidate of its
  name.
\<close>

theorem replace_if_better:
  assumes "i < length found" and "object_name (found ! i) = object_name c"
  shows "length (merge_one threshold c found) = length found \<and>
         merge_one threshold c found ! i = (if score c < score (found ! i) then c else found ! i) \<and>
         (\<forall>j<length found. object_name (found ! j) \<noteq> object_name c
             \<longrightarrow> merge_one threshold c found ! j = found ! j) \<and>
         (distinct (map object_name found) \<and> \<not> score c < score (found ! i)
             \<longrightarrow> merge_one threshold c found = found) \<and>
         ((\<forall>x\<in>set xs \<union> set zs. object_name x \<noteq> object_name c) \<longrightarrow>
            i < length (merge threshold (xs @ c # zs) found) \<and>
            merge threshold (xs @ c # zs) found ! i
              = (if score c < score (found ! i) then c else found ! i))"
proof -
  from assms have ex: "\<exists>e\<in>set found. object_name e = object_name c"
    using nth_mem by blast
  then have m: "merge_one threshold c found = map (better c) found"
    by (simp add: merge_one_eq)
  have "merge_one threshold c found ! i = (if score c < score (found ! i) then c else found ! i)"
    using assms m by (simp add: better_def)
  moreover have "\<forall>j<length found. object_name (found ! j) \<noteq> object_name c
             \<longrightarrow> merge_one threshold c found ! j = found ! j"
    using m by (simp add: better_def)
  moreover have "distinct (map object_name found) \<and> \<not> score c < score (found ! i)
             \<longrightarrow> merge_one threshold c found = found"
    using m assms map_better_distinct_keep[of found i c] by simp
  moreover have "(\<forall>x\<in>set xs \<union> set zs. object_name x \<noteq> object_name c) \<longrightarrow>
            i < length (merge threshold (xs @ c # zs) found) \<and>
            merge threshold (xs @ c # zs) found ! i
              = (if score c < score (found ! i) then c else found ! i)"
    using merge_batch_position[OF assms, of xs zs threshold] by blast
  ultimately show ?thesis using m by simp
qed

text \<open>
  The two scenarios of the specification: an entry with error 0.08 is replaced by a
  candidate with error 0.03, and an entry with error 0.03 is kept against one with 0.08.
\<close>

theorem replace_if_better_witness:
  "(0::nat) < length [candidate ''A'' (8/100), candidate ''B'' (5/100)] \<and>
   object_name ([candidate ''A'' (8/100), candidate ''B'' (5/100)] ! 0)
     = object_name (candidate ''A'' (3/100)) \<and>
   merge_one (1/10) (candidate ''A'' (3/100)) [candidate ''A'' (8/100), candidate ''B'' (5/100)]
     = [candidate ''A'' (3/100), candidate ''B'' (5/100)] \<and>
   object_name (candidate ''A'' (3/100))
     \<notin> object_name ` (set [candidate ''C'' (2/100)] \<union> set []) \<and>
   merge (1/10) ([candidate ''C'' (2/100)] @ candidate ''A'' (3/100) # [])
     [candidate ''A'' (8/100), candidate ''B'' (5/100)]
     = [candidate ''A'' (3/100), candidate ''B'' (5/100), candidate ''C'' (2/100)] \<and>
   distinct (map object_name [candidate ''A'' (3/100)]) \<and>
   \<not> score (candidate ''A'' (8/100)) < score ([candidate ''A'' (3/100)] ! 0) \<and>
   merge (1/10) [candidate ''A'' (3/100)] [candidate ''A'' (8/100)] = [candidate ''A'' (3/100)] \<and>
   merge (1/10) [candidate ''A'' (8/100)] [candidate ''A'' (3/100)] = [candidate ''A'' (3/100)]"
  using replace_if_better[of 0 "[candidate ''A'' (8/100), candidate ''B'' (5/100)]"
      "candidate ''A'' (3/100)" "1/10" "[candidate ''C'' (2/100)]" "[]"]
    replace_if_better[of 0 "[candidate ''A'' (3/100)]" "candidate ''A'' (8/100)" "1/10" "[]" "[]"]
  by (simp add: candidate_def merge_one_eq better_def)

text \<open>
  Claim C2. When no entry carries the name of the new cavity \<open>c\<close>, the cavity is
  appended exactly when its error is strictly below the threshold, and otherwise the
  result set is left as it was. After a whole batch in which \<open>c\<close> is the only candidate
  of its name, \<open>c\<close> is in the result set exactly when its error is strictly below the
  threshold.
\<close>

theorem threshold_acceptance:
  assumes "object_name c \<notin> set (map object_name found)"
  shows "merge_one threshold c found = (if score c < threshold then found @ [c] else found) \<and>
         (merge_one threshold c found = found @ [c] \<longleftrightarrow> score c < threshold) \<and>
         (\<not> score c < threshold \<longrightarrow> merge_one threshold c found = found) \<and>
         ((\<forall>x\<in>set xs \<union> set zs. object_name x \<noteq> object_name c) \<longrightarrow>
            (c \<in> set (merge threshold (xs @ c # zs) found) \<longleftrightarrow> score c < threshold))"
proof -
  from assms have "\<not> (\<exists>e\<in>set found. object_name e = object_name c)"
    by (metis image_eqI set_map)
  then have "merge_one threshold c found = (if score c < threshold then found @ [c] else found)"
    by (simp add: merge_one_eq)
  moreover have "(\<forall>x\<in>set xs \<union> set zs. object_name x \<noteq> object_name c) \<longrightarrow>
            (c \<in> set (merge threshold (xs @ c # zs) found) \<longleftrightarrow> score c < threshold)"
    using merge_batch_accept[OF assms, of xs zs threshold] by blast
  ultimately show ?thesis by simp
qed

text \<open>
  The scenario of the specification (error 0.2 against threshold 0.1 is rejected), and an
  accepted candidate in the middle of a batch.
\<close>

theorem threshold_acceptance_witness:
  "object_name (candidate ''A'' (2/10)) \<notin> set (map object_name ([] :: unit cavity list)) \<and>
   object_name (candidate ''A'' (2/10))
     \<notin> object_name ` (set ([] :: unit cavity list) \<union> set []) \<and>
   merge (1/10) [candidate ''A'' (2/10)] [] = [] \<and>
   object_name (candidate ''B'' (5/100)) \<notin> set (map object_name [candidate ''A'' (3/100)]) \<and>
   object_name (candidate ''B'' (5/100))
     \<notin> object_name ` (set [candidate ''A'' (2/100)] \<union> set [candidate ''C'' (2/10)]) \<and>
   merge (1/10) ([candidate ''A'' (2/100)] @ candidate ''B'' (5/100) # [candidate ''C'' (2/10)])
     [candidate ''A'' (3/100)] = [candidate ''A'' (2/100), candidate ''B'' (5/100)]"
  using threshold_acceptance[of "candidate ''A'' (2/10)" "[]" "1/10" "[]" "[]"]
    threshold_acceptance[of "candidate ''B'' (5/100)" "[candidate ''A'' (3/100)]" "1/10"
      "[candidate ''A'' (2/100)]" "[candidate ''C'' (2/10)]"]
  by (simp add: candidate_def merge_one_eq better_def)

subsection \<open>The invariant of the result set\<close>

lemma names_map_better: "map object_name (map (better c) f) = map object_name f"
  by (simp add: better_name)

lemma invariant_step:
  assumes inv: "result_set_invariant thr obs f"
  shows "result_set_invariant thr (obs @ [c]) (merge_one thr c f)"
proof (cases "\<exists>e\<in>set f. object_name e = object_name c")
  case True
  then have m: "merge_one thr c f = map (better c) f" by (simp add: merge_one_eq)
  have d: "distinct (map object_name (map (better c) f))"
    using inv by (simp only: names_map_better result_set_invariant_def)
  have e: "\<forall>e\<in>set (map (better c) f). e \<in> set (obs @ [c]) \<and> score e < thr \<and>
        (\<forall>x\<in>set (obs @ [c]). object_name x = object_name e \<and> score x < thr
           \<longrightarrow> score e \<le> score x)"
  proof
    fix e' assume "e' \<in> set (map (better c) f)"
    then obtain e where ef: "e \<in> set f" and e': "e' = better c e" by auto
    from inv ef have eo: "e \<in> set obs" and et: "score e < thr"
      and em: "\<forall>x\<in>set obs. object_name x = object_name e \<and> score x < thr \<longrightarrow> score e \<le> score x"
      by (auto simp: result_set_invariant_def)
    show "e' \<in> set (obs @ [c]) \<and> score e' < thr \<and>
        (\<forall>x\<in>set (obs @ [c]). object_name x = object_name e' \<and> score x < thr
           \<longrightarrow> score e' \<le> score x)"
    proof (cases "object_name c = object_name e \<and> score c < score e")
      case True
      then have "e' = c" using e' by (simp add: better_def)
      moreover have "\<forall>x\<in>set obs. object_name x = object_name c \<and> score x < thr \<longrightarrow> score c \<le> score x"
        using em True by fastforce
      ultimately show ?thesis using True et by auto
    next
      case False
      then have "e' = e" using e' by (auto simp: better_def)
      moreover have "object_name c = object_name e \<longrightarrow> score e \<le> score c"
        using False by auto
      ultimately show ?thesis using eo et em by auto
    qed
  qed
  have k: "\<forall>x\<in>set (obs @ [c]). score x < thr \<longrightarrow> object_name x \<in> set (map object_name (map (better c) f))"
  proof -
    from True have "object_name c \<in> set (map object_name f)"
      by (metis image_eqI set_map)
    moreover from inv
    have "\<forall>x\<in>set obs. score x < thr \<longrightarrow> object_name x \<in> set (map object_name f)"
      by (simp add: result_set_invariant_def)
    ultimately show ?thesis by (simp only: names_map_better) simp
  qed
  show ?thesis unfolding m result_set_invariant_def using d e k by blast
next
  case False
  then have absent: "object_name c \<notin> set (map object_name f)" by auto
  from inv have dist: "distinct (map object_name f)"
    and ent: "\<forall>e\<in>set f. e \<in> set obs \<and> score e < thr \<and>
        (\<forall>x\<in>set obs. object_name x = object_name e \<and> score x < thr
           \<longrightarrow> score e \<le> score x)"
    and comp: "\<forall>x\<in>set obs. score x < thr \<longrightarrow> object_name x \<in> set (map object_name f)"
    by (simp_all add: result_set_invariant_def)
  show ?thesis
  proof (cases "score c < thr")
    case True
    with False have m: "merge_one thr c f = f @ [c]" by (simp add: merge_one_eq)
    have none: "\<forall>x\<in>set obs. object_name x = object_name c \<longrightarrow> \<not> score x < thr"
      using comp absent by metis
    have d': "distinct (map object_name (f @ [c]))"
      using dist absent by simp
    have e': "\<forall>e\<in>set (f @ [c]). e \<in> set (obs @ [c]) \<and> score e < thr \<and>
        (\<forall>x\<in>set (obs @ [c]). object_name x = object_name e \<and> score x < thr
           \<longrightarrow> score e \<le> score x)"
    proof
      fix e assume "e \<in> set (f @ [c])"
      then consider "e \<in> set f" | "e = c" by auto
      then show "e \<in> set (obs @ [c]) \<and> score e < thr \<and>
        (\<forall>x\<in>set (obs @ [c]). object_name x = object_name e \<and> score x < thr
           \<longrightarrow> score e \<le> score x)"
      proof cases
        case 1
        with False have "object_name c \<noteq> object_name e" by metis
        with 1 ent show ?thesis by auto
      next
        case 2
        with True none show ?thesis by auto
      qed
    qed
    have k': "\<forall>x\<in>set (obs @ [c]). score x < thr
        \<longrightarrow> object_name x \<in> set (map object_name (f @ [c]))"
      using comp by auto
    show ?thesis unfolding m result_set_invariant_def using d' e' k' by blast
  next
    case nt: False
    with False have m: "merge_one thr c f = f" by (simp add: merge_one_eq)
    have e': "\<forall>e\<in>set f. e \<in> set (obs @ [c]) \<and> score e < thr \<and>
        (\<forall>x\<in>set (obs @ [c]). object_name x = object_name e \<and> score x < thr
           \<longrightarrow> score e \<le> score x)"
      using ent nt by auto
    have k': "\<forall>x\<in>set (obs @ [c]). score x < thr
        \<longrightarrow> object_name x \<in> set (map object_name f)"
      using comp nt by auto
    show ?thesis unfolding m result_set_invariant_def using dist e' k' by blast
  qed
qed

lemma invariant_merge:
  "result_set_invariant thr obs f \<Longrightarrow> result_set_invariant thr (obs @ xs) (merge thr xs f)"
proof (induction xs arbitrary: obs f)
  case Nil
  then show ?case by simp
next
  case (Cons c cs)
  from Cons.prems have "result_set_invariant thr (obs @ [c]) (merge_one thr c f)"
    by (rule invariant_step)
  from Cons.IH[OF this] show ?case by simp
qed

text \<open>
  The invariant holds of the empty result set with nothing observed, so it holds after
  any number of batches merged with one threshold, starting from the empty set.
\<close>

lemma invariant_reachable:
  "result_set_invariant thr (concat batches) (foldl (\<lambda>f xs. merge thr xs f) [] batches)"
proof -
  have "result_set_invariant thr obs f
    \<Longrightarrow> result_set_invariant thr (obs @ concat bs) (foldl (\<lambda>f xs. merge thr xs f) f bs)"
    for obs f bs
  proof (induction bs arbitrary: obs f)
    case Nil
    then show ?case by simp
  next
    case (Cons xs bs)
    from Cons.IH[OF invariant_merge[OF Cons.prems, of xs]] show ?case by simp
  qed
  from this[of "[]" "[]" batches] show ?thesis
    by (simp add: result_set_invariant_def)
qed

lemma invariant_unique_minimal:
  "result_set_invariant thr obs f \<Longrightarrow> unique_minimal thr obs f"
  by (simp add: result_set_invariant_def unique_minimal_def)

text \<open>
  Claim C3, as the code has it. The claim as stated fails: unique names and minimal
  entries alone are not preserved. When a candidate with error 0.01 was observed for a
  name and the result set holds no entry of that name, a later candidate with error 0.05
  is appended, and the entry is then not the minimum of what was observed below the
  threshold.
\<close>

theorem invariant_preserved_counterexample:
  "unique_minimal (1/10) [candidate ''A'' (1/100)] [] \<and>
   merge (1/10) [candidate ''A'' (5/100)] [] = [candidate ''A'' (5/100)] \<and>
   \<not> unique_minimal (1/10) ([candidate ''A'' (1/100)] @ [candidate ''A'' (5/100)])
       (merge (1/10) [candidate ''A'' (5/100)] [])"
  by (simp add: unique_minimal_def merge_one_eq candidate_def)

text \<open>
  Claim C3, amended. Let the result set satisfy the invariant with respect to the
  candidates handed to the merge loop so far: no two entries share a name, every entry is
  an observed candidate below the threshold whose error is minimal among the observed
  candidates of its name below the threshold, and every name observed below the
  threshold has an entry. Then after merging any batch with the same threshold all of
  this holds with respect to the observations extended by the batch; in particular names
  are unique and every entry holds the minimal error observed below the threshold for
  its name.
\<close>

theorem invariant_preserved:
  "result_set_invariant threshold observed found
    \<Longrightarrow> result_set_invariant threshold (observed @ incoming) (merge threshold incoming found) \<and>
        unique_minimal threshold (observed @ incoming) (merge threshold incoming found)"
  using invariant_merge[of threshold observed found incoming] invariant_unique_minimal
  by blast

theorem invariant_preserved_witness:
  "result_set_invariant (1/10) [candidate ''A'' (8/100)] [candidate ''A'' (8/100)] \<and>
   merge (1/10) [candidate ''A'' (3/100), candidate ''B'' (2/10), candidate ''C'' (5/100)]
     [candidate ''A'' (8/100)] = [candidate ''A'' (3/100), candidate ''C'' (5/100)] \<and>
   result_set_invariant (1/10)
     ([candidate ''A'' (8/100)] @ [candidate ''A'' (3/100), candidate ''B'' (2/10), candidate ''C'' (5/100)])
     (merge (1/10) [candidate ''A'' (3/100), candidate ''B'' (2/10), candidate ''C'' (5/100)]
        [candidate ''A'' (8/100)]) \<and>
   unique_minimal (1/10)
     ([candidate ''A'' (8/100)] @ [candidate ''A'' (3/100), candidate ''B'' (2/10), candidate ''C'' (5/100)])
     (merge (1/10) [candidate ''A'' (3/100), candidate ''B'' (2/10), candidate ''C'' (5/100)]
        [candidate ''A'' (8/100)])"
proof -
  have h: "result_set_invariant (1/10) [candidate ''A'' (8/100)] [candidate ''A'' (8/100)]"
    by (simp add: result_set_invariant_def candidate_def)
  have m: "merge (1/10) [candidate ''A'' (3/100), candidate ''B'' (2/10), candidate ''C'' (5/100)]
     [candidate ''A'' (8/100)] = [candidate ''A'' (3/100), candidate ''C'' (5/100)]"
    by (simp add: merge_one_eq better_def candidate_def)
  from h m invariant_preserved[OF h, of "[candidate ''A'' (3/100), candidate ''B'' (2/10), candidate ''C'' (5/100)]"]
  show ?thesis by blast
qed

subsection \<open>Order of arrival\<close>

text \<open>
  Claim C4, as the code has it. The claim as stated fails: a candidate above the
  threshold does not enter the result set, however it compares with a later one.
\<close>

theorem lower_score_wins_counterexample:
  "object_name (candidate ''A'' (2/10)) = object_name (candidate ''A'' (3/10)) \<and>
   score (candidate ''A'' (2/10)) < score (candidate ''A'' (3/10)) \<and>
   candidate ''A'' (2/10) \<notin> set (merge (1/10) [candidate ''A'' (2/10), candidate ''A'' (3/10)] []) \<and>
   candidate ''A'' (2/10) \<notin> set (merge (1/10) [candidate ''A'' (3/10), candidate ''A'' (2/10)] [])"
  by (simp add: merge_one_eq candidate_def)

text \<open>
  Claim C4, amended. For two candidates \<open>a\<close> and \<open>b\<close> of one name with the error of
  \<open>a\<close> strictly smaller, merging them in either order, in one batch or in two
  successive ones, gives what merging \<open>a\<close> alone gives. A candidate enters the result
  set wherever it stands in the sequence of arrivals, provided its error is below the
  threshold and strictly smaller than that of every other candidate of its name, held or
  arriving. An entry stays where it is against all later candidates of its name whose
  error is equal or larger, so on a tie the earlier one is kept. Merging batch after
  batch is merging their concatenation.
\<close>

theorem lower_score_wins:
  "(object_name a = object_name b \<and> score a < score b \<longrightarrow>
      merge threshold [a, b] found = merge threshold [a] found \<and>
      merge threshold [b, a] found = merge threshold [a] found \<and>
      merge threshold [b] (merge threshold [a] found) = merge threshold [a] found \<and>
      merge threshold [a] (merge threshold [b] found) = merge threshold [a] found) \<and>
   (score a < threshold \<and>
    (\<forall>e\<in>set found \<union> set xs \<union> set zs. object_name e = object_name a \<longrightarrow> score a < score e)
      \<longrightarrow> a \<in> set (merge threshold (xs @ a # zs) found)) \<and>
   (i < length found \<and>
    (\<forall>c\<in>set xs. object_name c = object_name (found ! i) \<longrightarrow> score (found ! i) \<le> score c)
      \<longrightarrow> i < length (merge threshold xs found) \<and> merge threshold xs found ! i = found ! i) \<and>
   merge threshold zs (merge threshold xs found) = merge threshold (xs @ zs) found"
proof -
  have "merge threshold [a, b] found = merge threshold [a] found \<and>
      merge threshold [b, a] found = merge threshold [a] found \<and>
      merge threshold [b] (merge threshold [a] found) = merge threshold [a] found \<and>
      merge threshold [a] (merge threshold [b] found) = merge threshold [a] found"
    if "object_name a = object_name b" "score a < score b"
    using later_no_better[of a b threshold found] earlier_worse[of a b threshold found] that
    by simp
  moreover have "a \<in> set (merge threshold (xs @ a # zs) found)"
    if "score a < threshold"
      "\<forall>e\<in>set found \<union> set xs \<union> set zs. object_name e = object_name a \<longrightarrow> score a < score e"
    using that by (rule strict_winner_enters)
  moreover have "i < length (merge threshold xs found) \<and> merge threshold xs found ! i = found ! i"
    if "i < length found"
      "\<forall>c\<in>set xs. object_name c = object_name (found ! i) \<longrightarrow> score (found ! i) \<le> score c"
    using that by (rule merge_keeps)
  ultimately show ?thesis by (simp add: merge_append)
qed

theorem lower_score_wins_witness:
  "object_name (candidate ''A'' (3/100)) = object_name (candidate ''A'' (8/100)) \<and>
   score (candidate ''A'' (3/100)) < score (candidate ''A'' (8/100)) \<and>
   merge (1/10) [candidate ''A'' (8/100), candidate ''A'' (3/100)] [candidate ''B'' (5/100)]
     = merge (1/10) [candidate ''A'' (3/100)] [candidate ''B'' (5/100)] \<and>
   score (candidate ''A'' (3/100)) < 1/10 \<and>
   \<not> (\<exists>e\<in>set [candidate ''B'' (5/100)] \<union> set [candidate ''A'' (8/100)] \<union> set [candidate ''C'' (2/10)].
      object_name e = object_name (candidate ''A'' (3/100)) \<and>
      \<not> score (candidate ''A'' (3/100)) < score e) \<and>
   candidate ''A'' (3/100) \<in> set (merge (1/10)
      ([candidate ''A'' (8/100)] @ candidate ''A'' (3/100) # [candidate ''C'' (2/10)])
      [candidate ''B'' (5/100)]) \<and>
   (0::nat) < length [candidate ''B'' (5/100)] \<and>
   \<not> (\<exists>c\<in>set [candidate ''A'' (8/100)].
      object_name c = object_name ([candidate ''B'' (5/100)] ! 0) \<and>
      \<not> score ([candidate ''B'' (5/100)] ! 0) \<le> score c) \<and>
   merge (1/10) [candidate ''A'' (8/100)] [candidate ''B'' (5/100)] ! 0 = candidate ''B'' (5/100) \<and>
   merge (1/10)
     [\<lparr>object_name = ''A'', pose = 2::nat, template_matching_error = \<lparr>matching_error = 3/100\<rparr>\<rparr>]
     [\<lparr>object_name = ''A'', pose = 1, template_matching_error = \<lparr>matching_error = 3/100\<rparr>\<rparr>]
     = [\<lparr>object_name = ''A'', pose = 1, template_matching_error = \<lparr>matching_error = 3/100\<rparr>\<rparr>]"
  using lower_score_wins[where a = "candidate ''A'' (3/100)" and b = "candidate ''A'' (8/100)"
      and threshold = "1/10" and found = "[candidate ''B'' (5/100)]"
      and xs = "[candidate ''A'' (8/100)]" and zs = "[candidate ''C'' (2/10)]" and i = 0]
    lower_score_wins[where threshold = "1/10" and i = 0
      and found = "[\<lparr>object_name = ''A'', pose = 1::nat,
                     template_matching_error = \<lparr>matching_error = 3/100\<rparr>\<rparr>]"
      and xs = "[\<lparr>object_name = ''A'', pose = 2::nat,
                  template_matching_error = \<lparr>matching_error = 3/100\<rparr>\<rparr>]"]
  by (simp add: candidate_def merge_one_eq better_def)

subsection \<open>The loops of \<open>find_objects\<close>\<close>

text \<open>
  The callbacks and the polling loop change the two latched attributes only, and an
  attempt always leaves \<open>object_list\<close> assigned. So every attempt of the retry loop is
  the function \<open>attempt\<close> of the state object at entry, whatever the attempts before
  left behind.
\<close>

text \<open>A wait ends once a poll reads the clock past the deadline.\<close>

lemma wait_for_objects_ends:
  "\<exists>p\<in>set ps. now p - start > find_objects_timeout \<Longrightarrow> wait_for_objects start ps s \<noteq> None"
proof (induction ps arbitrary: s)
  case Nil
  then show ?case by simp
next
  case (Cons p ps)
  show ?case
  proof (cases "now p - start > find_objects_timeout")
    case True
    then show ?thesis by (simp add: Let_def)
  next
    case False
    with Cons.prems have "\<exists>p\<in>set ps. now p - start > find_objects_timeout" by simp
    from Cons.IH[OF this] show ?thesis by (simp add: Let_def)
  qed
qed

lemma foldl_callback_config:
  "(foldl callback s ds)\<lparr>object_list := x, event_msg := y\<rparr> = s\<lparr>object_list := x, event_msg := y\<rparr>"
proof (induction ds arbitrary: s)
  case Nil
  show ?case by simp
next
  case (Cons d ds)
  show ?case using Cons.IH[of "callback s d"] by (cases d) simp_all
qed

lemma foldl_callback_assigned:
  "object_list s \<noteq> Unassigned \<Longrightarrow> object_list (foldl callback s ds) \<noteq> Unassigned"
proof (induction ds arbitrary: s)
  case Nil
  then show ?case by simp
next
  case (Cons d ds)
  from Cons.prems have "object_list (callback s d) \<noteq> Unassigned" by (cases d) simp_all
  from Cons.IH[OF this] show ?case by simp
qed

lemma wait_for_objects_config:
  "wait_for_objects start ps s = Some s'
    \<Longrightarrow> s'\<lparr>object_list := x, event_msg := y\<rparr> = s\<lparr>object_list := x, event_msg := y\<rparr>"
proof (induction ps arbitrary: s)
  case Nil
  then show ?case by simp
next
  case (Cons p ps)
  let ?s = "foldl callback s (deliveries p)"
  have c: "?s\<lparr>object_list := x, event_msg := y\<rparr> = s\<lparr>object_list := x, event_msg := y\<rparr>"
    by (rule foldl_callback_config)
  from Cons.prems have "s' = ?s \<or> wait_for_objects start ps ?s = Some s'"
    by (simp add: Let_def split: if_splits)
  then show ?case
  proof
    assume "s' = ?s"
    with c show ?thesis by simp
  next
    assume "wait_for_objects start ps ?s = Some s'"
    from Cons.IH[OF this] c show ?thesis by simp
  qed
qed

lemma wait_for_objects_assigned:
  "wait_for_objects start ps s = Some s' \<Longrightarrow> object_list s \<noteq> Unassigned
    \<Longrightarrow> object_list s' \<noteq> Unassigned"
proof (induction ps arbitrary: s)
  case Nil
  then show ?case by simp
next
  case (Cons p ps)
  let ?s = "foldl callback s (deliveries p)"
  have a: "object_list ?s \<noteq> Unassigned"
    using Cons.prems(2) by (rule foldl_callback_assigned)
  from Cons.prems(1) have "s' = ?s \<or> wait_for_objects start ps ?s = Some s'"
    by (simp add: Let_def split: if_splits)
  then show ?case using a Cons.IH[of ?s] by auto
qed

lemma attempt_config:
  "attempt e self = Some s'
    \<Longrightarrow> s'\<lparr>object_list := NoneValue, event_msg := ''''\<rparr>
          = self\<lparr>object_list := NoneValue, event_msg := ''''\<rparr>"
  unfolding attempt_def by (drule wait_for_objects_config[where x = NoneValue and y = "''''"]) simp

lemma attempt_assigned: "attempt e self = Some s' \<Longrightarrow> no_objects (object_list s') \<noteq> None"
proof -
  assume "attempt e self = Some s'"
  then have "object_list s' \<noteq> Unassigned"
    unfolding attempt_def by (rule wait_for_objects_assigned) simp
  then show ?thesis by (cases "object_list s'") simp_all
qed

lemma attempts_step:
  assumes "s\<lparr>object_list := NoneValue, event_msg := ''''\<rparr>
             = self\<lparr>object_list := NoneValue, event_msg := ''''\<rparr>"
    and "int i < n"
  shows "attempts i n env s tr =
     (case attempt (env i) self of
        None \<Rightarrow> Pending
      | Some s' \<Rightarrow>
          (case no_objects (object_list s') of
             None \<Rightarrow> AttributeError
           | Some True \<Rightarrow> attempts (Suc i) n env s' (tr @ attempt_actions)
           | Some False \<Rightarrow> Returned (s', tr @ attempt_actions)))"
  using assms by (subst attempts.simps)
    (simp add: attempt_def attempt_actions_def Let_def del: attempts.simps
      split: option.splits bool.splits)

lemma attempts_done: "\<not> int i < n \<Longrightarrow> attempts i n env s tr = Returned (s, tr)"
  by (subst attempts.simps) (simp del: attempts.simps)

lemma attempts_shape:
  assumes "attempts i n env s tr = Returned (s', tr')"
    and "s\<lparr>object_list := NoneValue, event_msg := ''''\<rparr>
             = self\<lparr>object_list := NoneValue, event_msg := ''''\<rparr>"
    and "int i < n"
  shows "\<exists>k. i \<le> k \<and> int k < n \<and> attempt (env k) self = Some s' \<and>
             tr' = tr @ concat (replicate (Suc k - i) attempt_actions)"
  using assms
proof (induction "nat n - i" arbitrary: i s tr)
  case 0
  then show ?case by simp
next
  case (Suc d)
  from Suc.prems(1) obtain s1 where a: "attempt (env i) self = Some s1"
    by (cases "attempt (env i) self") (simp_all add: attempts_step[OF Suc.prems(2,3)] del: attempts.simps)
  have c1: "s1\<lparr>object_list := NoneValue, event_msg := ''''\<rparr>
             = self\<lparr>object_list := NoneValue, event_msg := ''''\<rparr>"
    using a by (rule attempt_config)
  from attempt_assigned[OF a] obtain b where b: "no_objects (object_list s1) = Some b" by auto
  show ?case
  proof (cases b)
    case False
    with a b Suc.prems(1) have "s' = s1" "tr' = tr @ attempt_actions"
      by (simp_all add: attempts_step[OF Suc.prems(2,3)] del: attempts.simps)
    with a Suc.prems(3) show ?thesis by (intro exI[of _ i]) simp
  next
    case True
    with a b Suc.prems(1)
    have r: "attempts (Suc i) n env s1 (tr @ attempt_actions) = Returned (s', tr')"
      by (simp add: attempts_step[OF Suc.prems(2,3)] del: attempts.simps)
    show ?thesis
    proof (cases "int (Suc i) < n")
      case False
      with r have "s' = s1" "tr' = tr @ attempt_actions" by (simp_all add: attempts_done del: attempts.simps)
      with a Suc.prems(3) show ?thesis by (intro exI[of _ i]) simp
    next
      case lt: True
      have d: "d = nat n - Suc i" using Suc.hyps(2) by simp
      from Suc.hyps(1)[OF d r c1 lt] obtain k where k: "Suc i \<le> k" "int k < n"
        "attempt (env k) self = Some s'"
        "tr' = (tr @ attempt_actions) @ concat (replicate (Suc k - Suc i) attempt_actions)"
        by blast
      from k(1) have "Suc k - i = Suc (Suc k - Suc i)" by simp
      with k show ?thesis by (intro exI[of _ k]) simp
    qed
  qed
qed

lemma attempts_until:
  assumes "i \<le> k" and "int k < n"
    and "\<forall>j. i \<le> j \<and> j < k \<longrightarrow> attempt_empty (env j) self = Some True"
    and "attempt (env k) self = Some sk"
    and "s\<lparr>object_list := NoneValue, event_msg := ''''\<rparr>
             = self\<lparr>object_list := NoneValue, event_msg := ''''\<rparr>"
  shows "attempts i n env s tr =
     (case no_objects (object_list sk) of
        None \<Rightarrow> AttributeError
      | Some True \<Rightarrow> attempts (Suc k) n env sk (tr @ concat (replicate (Suc k - i) attempt_actions))
      | Some False \<Rightarrow> Returned (sk, tr @ concat (replicate (Suc k - i) attempt_actions)))"
  using assms
proof (induction "k - i" arbitrary: i s tr)
  case 0
  then have "i = k" by simp
  with 0 show ?case
    by (simp add: attempts_step[OF "0.prems"(5)] del: attempts.simps
        split: option.splits bool.splits)
next
  case (Suc d)
  then have lt: "i < k" by simp
  with Suc.prems(2) have i: "int i < n" by simp
  from Suc.prems(3) lt have "attempt_empty (env i) self = Some True" by simp
  then obtain s1 where a: "attempt (env i) self = Some s1"
    and b: "no_objects (object_list s1) = Some True"
    by (auto simp: attempt_empty_def split: option.splits)
  have c1: "s1\<lparr>object_list := NoneValue, event_msg := ''''\<rparr>
             = self\<lparr>object_list := NoneValue, event_msg := ''''\<rparr>"
    using a by (rule attempt_config)
  have d: "d = k - Suc i" using Suc.hyps(2) by simp
  have le: "Suc i \<le> k" using lt by simp
  have e: "\<forall>j. Suc i \<le> j \<and> j < k \<longrightarrow> attempt_empty (env j) self = Some True"
    using Suc.prems(3) by simp
  have "Suc k - i = Suc (Suc k - Suc i)" using lt by simp
  with Suc.hyps(1)[OF d le Suc.prems(2) e Suc.prems(4) c1, of "tr @ attempt_actions"] a b
  show ?case
    by (simp add: attempts_step[OF Suc.prems(5) i] del: attempts.simps
        split: option.splits bool.splits)
qed

lemma attempts_entry_state:
  "int i < n \<Longrightarrow>
   attempts i n env (self\<lparr>object_list := l, event_msg := m\<rparr>) tr = attempts i n env self tr"
  by (simp add: attempts_step[where self = self])

lemma cleared_attempts:
  "cleared_before_trigger EVENT_IN_TOPIC [''object_list'', ''event_msg''] seen
     (concat (replicate m attempt_actions))"
  by (induction m arbitrary: seen) (simp_all add: attempt_actions_def)

lemma published_attempts:
  "published EVENT_IN_TOPIC (concat (replicate m attempt_actions)) = replicate m ''e_trigger''"
  by (induction m) (simp_all add: attempt_actions_def)

lemma execute_after_attempts:
  assumes "attempts 0 (retries self) env self [] = Returned (s, tr)"
    and "no_objects (object_list s) = Some b"
  shows "find_objects_execute self env found_objects =
           Returned (if b then \<lparr>outcome = ''no_objects_found'', userdata = None, trace = tr\<rparr>
                     else \<lparr>outcome = ''objects_found'',
                           userdata = Some (objects (object_list s)), trace = tr\<rparr>, s)"
  using assms by (simp add: find_objects_execute_def)

lemma find_objects_trace:
  assumes "find_objects_execute self env found_objects = Returned (r, s)"
  shows "\<exists>m. trace r = concat (replicate m attempt_actions)"
proof -
  from assms obtain tr where at: "attempts 0 (retries self) env self [] = Returned (s, tr)"
    and tr: "trace r = tr"
    by (auto simp: find_objects_execute_def split: result.splits option.splits bool.splits)
  show ?thesis
  proof (cases "int 0 < retries self")
    case True
    from attempts_shape[OF at _ True, of self] obtain k
      where "tr = [] @ concat (replicate (Suc k - 0) attempt_actions)" by blast
    with tr have "trace r = concat (replicate (Suc k) attempt_actions)" by simp
    then show ?thesis by blast
  next
    case False
    then have "attempts 0 (retries self) env self [] = Returned (self, [])"
      by (simp add: attempts_done)
    with at tr have "trace r = concat (replicate 0 attempt_actions)" by simp
    then show ?thesis by blast
  qed
qed

text \<open>
  Claim C5, as the code has it. The claim as stated fails: an attempt that ends with the
  failure event, or with the deadline, while an object list has been latched, ends the
  loop with \<open>objects_found\<close> after a single trigger, although two retries are
  configured and every attempt would end the same way.
\<close>

theorem retry_bound_counterexample:
  "attempt (script [Object_list [1::nat], Event_out ''e_failed''])
     \<lparr>retries = 2, object_list = Unassigned, event_msg = ''''\<rparr>
     = Some \<lparr>retries = 2, object_list = ObjectList [1], event_msg = ''e_failed''\<rparr> \<and>
   find_objects_execute \<lparr>retries = 2, object_list = Unassigned, event_msg = ''''\<rparr>
     (\<lambda>i. script [Object_list [1::nat], Event_out ''e_failed'']) None
     = Returned (\<lparr>outcome = ''objects_found'', userdata = Some [1],
                  trace = [Clear ''object_list'', Clear ''event_msg'',
                           Publish EVENT_IN_TOPIC ''e_trigger'']\<rparr>,
                 \<lparr>retries = 2, object_list = ObjectList [1], event_msg = ''e_failed''\<rparr>) \<and>
   attempt (script [Object_list [1::nat]])
     \<lparr>retries = 2, object_list = Unassigned, event_msg = ''''\<rparr>
     = Some \<lparr>retries = 2, object_list = ObjectList [1], event_msg = ''''\<rparr> \<and>
   find_objects_execute \<lparr>retries = 2, object_list = Unassigned, event_msg = ''''\<rparr>
     (\<lambda>i. script [Object_list [1::nat]]) None
     = Returned (\<lparr>outcome = ''objects_found'', userdata = Some [1],
                  trace = [Clear ''object_list'', Clear ''event_msg'',
                           Publish EVENT_IN_TOPIC ''e_trigger'']\<rparr>,
                 \<lparr>retries = 2, object_list = ObjectList [1], event_msg = ''''\<rparr>)"
  by (simp add: attempt_def script_def find_objects_execute_def attempts.simps
      find_objects_timeout_def Let_def)

text \<open>
  Claim C5, amended. Let \<open>retries\<close> be at least one. If every attempt ends with no
  object list or an empty one, whatever ended its wait, then exactly \<open>retries\<close>
  triggers are published and the step returns \<open>no_objects_found\<close>. If attempt \<open>k\<close> is
  the first that ends with a non-empty object list, then exactly \<open>k + 1\<close> triggers are
  published and the step returns \<open>objects_found\<close> with that list.
\<close>

theorem retry_bound:
  "(1 \<le> retries self \<and> (\<forall>i<nat (retries self). attempt_empty (env i) self = Some True) \<longrightarrow>
      (\<exists>s. attempt (env (nat (retries self) - 1)) self = Some s \<and>
           find_objects_execute self env found_objects =
             Returned (\<lparr>outcome = ''no_objects_found'', userdata = None,
                        trace = concat (replicate (nat (retries self)) attempt_actions)\<rparr>, s)) \<and>
      published EVENT_IN_TOPIC (concat (replicate (nat (retries self)) attempt_actions))
        = replicate (nat (retries self)) ''e_trigger'') \<and>
   (int k < retries self \<and> (\<forall>i<k. attempt_empty (env i) self = Some True) \<and>
    attempt_empty (env k) self = Some False \<longrightarrow>
      (\<exists>s. attempt (env k) self = Some s \<and>
           find_objects_execute self env found_objects =
             Returned (\<lparr>outcome = ''objects_found'', userdata = Some (objects (object_list s)),
                        trace = concat (replicate (Suc k) attempt_actions)\<rparr>, s)) \<and>
      published EVENT_IN_TOPIC (concat (replicate (Suc k) attempt_actions))
        = replicate (Suc k) ''e_trigger'')"
proof -
  have c: "self\<lparr>object_list := NoneValue, event_msg := ''''\<rparr>
             = self\<lparr>object_list := NoneValue, event_msg := ''''\<rparr>" ..
  have exhausted: "\<exists>s. attempt (env (nat (retries self) - 1)) self = Some s \<and>
           find_objects_execute self env found_objects =
             Returned (\<lparr>outcome = ''no_objects_found'', userdata = None,
                        trace = concat (replicate (nat (retries self)) attempt_actions)\<rparr>, s)"
    if pos: "1 \<le> retries self"
      and empty: "\<forall>i<nat (retries self). attempt_empty (env i) self = Some True"
  proof -
    let ?k = "nat (retries self) - 1"
    have k: "int ?k < retries self" "Suc ?k = nat (retries self)" using pos by simp_all
    from empty k have "attempt_empty (env ?k) self = Some True" by simp
    then obtain sk where a: "attempt (env ?k) self = Some sk"
      and b: "no_objects (object_list sk) = Some True"
      by (auto simp: attempt_empty_def split: option.splits)
    have e: "\<forall>j. 0 \<le> j \<and> j < ?k \<longrightarrow> attempt_empty (env j) self = Some True"
      using empty by simp
    have "attempts 0 (retries self) env self [] =
            attempts (Suc ?k) (retries self) env sk
              ([] @ concat (replicate (Suc ?k - 0) attempt_actions))"
      using attempts_until[OF _ k(1) e a c, of "[]"] b by simp
    also have "\<dots> = Returned (sk, concat (replicate (nat (retries self)) attempt_actions))"
      using k by (simp add: attempts_done del: attempts.simps)
    finally have "attempts 0 (retries self) env self [] =
        Returned (sk, concat (replicate (nat (retries self)) attempt_actions))" .
    from execute_after_attempts[OF this b, of found_objects]
    have "find_objects_execute self env found_objects =
             Returned (\<lparr>outcome = ''no_objects_found'', userdata = None,
                        trace = concat (replicate (nat (retries self)) attempt_actions)\<rparr>, sk)"
      by simp
    with a show ?thesis by blast
  qed
  have found: "\<exists>s. attempt (env k) self = Some s \<and>
           find_objects_execute self env found_objects =
             Returned (\<lparr>outcome = ''objects_found'', userdata = Some (objects (object_list s)),
                        trace = concat (replicate (Suc k) attempt_actions)\<rparr>, s)"
    if k: "int k < retries self"
      and empty: "\<forall>i<k. attempt_empty (env i) self = Some True"
      and hit: "attempt_empty (env k) self = Some False"
  proof -
    from hit obtain sk where a: "attempt (env k) self = Some sk"
      and b: "no_objects (object_list sk) = Some False"
      by (auto simp: attempt_empty_def split: option.splits)
    have e: "\<forall>j. 0 \<le> j \<and> j < k \<longrightarrow> attempt_empty (env j) self = Some True"
      using empty by simp
    have "attempts 0 (retries self) env self [] =
            Returned (sk, [] @ concat (replicate (Suc k - 0) attempt_actions))"
      using attempts_until[OF _ k e a c, of "[]"] b by simp
    from execute_after_attempts[OF this b, of found_objects]
    have "find_objects_execute self env found_objects =
             Returned (\<lparr>outcome = ''objects_found'', userdata = Some (objects (object_list sk)),
                        trace = concat (replicate (Suc k) attempt_actions)\<rparr>, sk)"
      by simp
    with a show ?thesis by blast
  qed
  from exhausted found show ?thesis by (simp only: published_attempts) blast
qed

theorem retry_bound_witness:
  "1 \<le> retries \<lparr>retries = 2, object_list = Unassigned :: nat latched, event_msg = ''''\<rparr> \<and>
   attempt_empty (script [Event_out ''e_failed''])
     \<lparr>retries = 2, object_list = Unassigned :: nat latched, event_msg = ''''\<rparr> = Some True \<and>
   find_objects_execute \<lparr>retries = 2, object_list = Unassigned :: nat latched, event_msg = ''''\<rparr>
     (\<lambda>i. script [Event_out ''e_failed'']) (Some [9])
     = Returned (\<lparr>outcome = ''no_objects_found'', userdata = None,
                  trace = attempt_actions @ attempt_actions\<rparr>,
                 \<lparr>retries = 2, object_list = NoneValue, event_msg = ''e_failed''\<rparr>) \<and>
   int (Suc 0) < retries \<lparr>retries = 3, object_list = ObjectList [7::nat], event_msg = ''e_done''\<rparr> \<and>
   attempt_empty
     ([script [Event_out ''e_failed''], script [Object_list [1, 2], Event_out ''e_done''],
       script []] ! 0)
     \<lparr>retries = 3, object_list = ObjectList [7::nat], event_msg = ''e_done''\<rparr> = Some True \<and>
   attempt_empty
     ([script [Event_out ''e_failed''], script [Object_list [1, 2], Event_out ''e_done''],
       script []] ! Suc 0)
     \<lparr>retries = 3, object_list = ObjectList [7::nat], event_msg = ''e_done''\<rparr> = Some False \<and>
   find_objects_execute \<lparr>retries = 3, object_list = ObjectList [7::nat], event_msg = ''e_done''\<rparr>
     (\<lambda>i. [script [Event_out ''e_failed''], script [Object_list [1, 2], Event_out ''e_done''],
            script []] ! i) None
     = Returned (\<lparr>outcome = ''objects_found'', userdata = Some [1, 2],
                  trace = attempt_actions @ attempt_actions\<rparr>,
                 \<lparr>retries = 3, object_list = ObjectList [1, 2], event_msg = ''e_done''\<rparr>)"
  using retry_bound[where self = "\<lparr>retries = 2, object_list = Unassigned :: nat latched, event_msg = ''''\<rparr>"
      and env = "\<lambda>i. script [Event_out ''e_failed'']" and found_objects = "Some [9]" and k = 0]
    retry_bound[where self = "\<lparr>retries = 3, object_list = ObjectList [7::nat], event_msg = ''e_done''\<rparr>"
      and env = "\<lambda>i. [script [Event_out ''e_failed''],
                        script [Object_list [1, 2], Event_out ''e_done''], script []] ! i"
      and found_objects = None and k = "Suc 0"]
  by (simp add: attempt_empty_def attempt_def script_def find_objects_execute_def attempts.simps
      find_objects_timeout_def Let_def attempt_actions_def)

text \<open>
  Claim C9, as the code has it. The claim as stated fails: with \<open>retries\<close> zero the
  loop body never runs, line 66 reads the object list that was latched before the call,
  and the step returns \<open>objects_found\<close> with that list although no attempt was made
  and no trigger was published.
\<close>

theorem no_accumulation_counterexample:
  "find_objects_execute \<lparr>retries = 0, object_list = ObjectList [7::nat], event_msg = ''e_done''\<rparr>
     (\<lambda>i. script []) None
     = Returned (\<lparr>outcome = ''objects_found'', userdata = Some [7], trace = []\<rparr>,
                 \<lparr>retries = 0, object_list = ObjectList [7], event_msg = ''e_done''\<rparr>)"
  by (simp add: find_objects_execute_def attempts.simps)

text \<open>
  Claim C9, amended. Whatever \<open>userdata.found_objects\<close> held at entry plays no part.
  When the step returns \<open>no_objects_found\<close> the slot is \<open>None\<close>; when it returns
  \<open>objects_found\<close> the slot holds the non-empty list latched in the state object,
  which for \<open>retries\<close> at least one is the state in which the last attempt made has
  ended.
\<close>

theorem no_accumulation:
  assumes "find_objects_execute self env found_objects = Returned (r, s)"
  shows "(outcome r = ''no_objects_found'' \<or> outcome r = ''objects_found'') \<and>
         (outcome r = ''no_objects_found'' \<longrightarrow> userdata r = None) \<and>
         (outcome r = ''objects_found'' \<longrightarrow>
            (\<exists>objs. objs \<noteq> [] \<and> object_list s = ObjectList objs \<and> userdata r = Some objs)) \<and>
         (1 \<le> retries self \<longrightarrow>
            (\<exists>k. int k < retries self \<and> attempt (env k) self = Some s \<and>
                 trace r = concat (replicate (Suc k) attempt_actions))) \<and>
         find_objects_execute self env other = Returned (r, s)"
proof -
  from assms obtain tr b where at: "attempts 0 (retries self) env self [] = Returned (s, tr)"
    and b: "no_objects (object_list s) = Some b"
    by (auto simp: find_objects_execute_def split: result.splits option.splits bool.splits)
  from execute_after_attempts[OF at b, of found_objects] assms
  have r: "r = (if b then \<lparr>outcome = ''no_objects_found'', userdata = None, trace = tr\<rparr>
                else \<lparr>outcome = ''objects_found'',
                      userdata = Some (objects (object_list s)), trace = tr\<rparr>)"
    by simp
  have same: "find_objects_execute self env other = Returned (r, s)"
    using execute_after_attempts[OF at b, of other] r by simp
  have objs: "\<exists>objs. objs \<noteq> [] \<and> object_list s = ObjectList objs \<and> userdata r = Some objs"
    if "\<not> b"
  proof (cases "object_list s")
    case (ObjectList objs)
    with b that r show ?thesis by auto
  qed (use b that in simp_all)
  have last: "\<exists>k. int k < retries self \<and> attempt (env k) self = Some s \<and>
                 trace r = concat (replicate (Suc k) attempt_actions)"
    if "1 \<le> retries self"
  proof -
    from that have "int 0 < retries self" by simp
    from attempts_shape[OF at _ this, of self] obtain k where "int k < retries self"
      "attempt (env k) self = Some s" "tr = [] @ concat (replicate (Suc k - 0) attempt_actions)"
      by blast
    with r show ?thesis by (intro exI[of _ k]) simp
  qed
  show ?thesis
  proof (cases b)
    case True
    with r same last show ?thesis by simp
  next
    case False
    with r same last objs show ?thesis by simp
  qed
qed

theorem no_accumulation_witness:
  "find_objects_execute \<lparr>retries = 3, object_list = ObjectList [7::nat], event_msg = ''e_done''\<rparr>
     (\<lambda>i. [script [Event_out ''e_failed''], script [Object_list [1, 2], Event_out ''e_done''],
            script []] ! i) (Some [9])
     = Returned (\<lparr>outcome = ''objects_found'', userdata = Some [1, 2],
                  trace = attempt_actions @ attempt_actions\<rparr>,
                 \<lparr>retries = 3, object_list = ObjectList [1, 2], event_msg = ''e_done''\<rparr>) \<and>
   1 \<le> retries \<lparr>retries = 3, object_list = ObjectList [7::nat], event_msg = ''e_done''\<rparr> \<and>
   find_objects_execute \<lparr>retries = 3, object_list = ObjectList [7::nat], event_msg = ''e_done''\<rparr>
     (\<lambda>i. [script [Event_out ''e_failed''], script [Object_list [1, 2], Event_out ''e_done''],
            script []] ! i) None
     = Returned (\<lparr>outcome = ''objects_found'', userdata = Some [1, 2],
                  trace = attempt_actions @ attempt_actions\<rparr>,
                 \<lparr>retries = 3, object_list = ObjectList [1, 2], event_msg = ''e_done''\<rparr>) \<and>
   find_objects_execute \<lparr>retries = 2, object_list = ObjectList [7::nat], event_msg = ''e_done''\<rparr>
     (\<lambda>i. script [Event_out ''e_failed'']) (Some [9])
     = Returned (\<lparr>outcome = ''no_objects_found'', userdata = None,
                  trace = attempt_actions @ attempt_actions\<rparr>,
                 \<lparr>retries = 2, object_list = NoneValue, event_msg = ''e_failed''\<rparr>) \<and>
   userdata \<lparr>outcome = ''no_objects_found'', userdata = None :: nat list option,
             trace = attempt_actions @ attempt_actions\<rparr> = None"
proof -
  have e: "find_objects_execute \<lparr>retries = 3, object_list = ObjectList [7::nat], event_msg = ''e_done''\<rparr>
     (\<lambda>i. [script [Event_out ''e_failed''], script [Object_list [1, 2], Event_out ''e_done''],
            script []] ! i) (Some [9])
     = Returned (\<lparr>outcome = ''objects_found'', userdata = Some [1, 2],
                  trace = attempt_actions @ attempt_actions\<rparr>,
                 \<lparr>retries = 3, object_list = ObjectList [1, 2], event_msg = ''e_done''\<rparr>)"
    by (simp add: attempt_def script_def find_objects_execute_def attempts.simps
        find_objects_timeout_def Let_def attempt_actions_def)
  have f: "find_objects_execute \<lparr>retries = 2, object_list = ObjectList [7::nat], event_msg = ''e_done''\<rparr>
     (\<lambda>i. script [Event_out ''e_failed'']) (Some [9])
     = Returned (\<lparr>outcome = ''no_objects_found'', userdata = None,
                  trace = attempt_actions @ attempt_actions\<rparr>,
                 \<lparr>retries = 2, object_list = NoneValue, event_msg = ''e_failed''\<rparr>)"
    by (simp add: attempt_def script_def find_objects_execute_def attempts.simps
        find_objects_timeout_def Let_def attempt_actions_def)
  from no_accumulation[OF e, of None] no_accumulation[OF f, of None] e f show ?thesis by simp
qed

subsection \<open>The outcome of \<open>do_visual_servoing\<close>\<close>

lemma unmapped_code:
  "code \<notin> {0, - 1, - 2, - 3}
    \<Longrightarrow> do_visual_servoing_execute (Response code) vscount = (None, vscount)"
  by (simp add: do_visual_servoing_execute_def)

text \<open>
  Claim C6. The four mapped codes and the service exception give the declared outcomes.
  For any other code, such as 1 or -4, the method returns no outcome at all and raises
  nothing: the absent value is not among the declared outcomes.
\<close>

theorem visual_servoing_unmapped_code:
  "do_visual_servoing_execute (Response 0) vscount = (Some ''succeeded'', 0) \<and>
   do_visual_servoing_execute (Response (- 1)) vscount = (Some ''failed'', vscount) \<and>
   do_visual_servoing_execute (Response (- 2)) vscount = (Some ''timeout'', vscount) \<and>
   do_visual_servoing_execute (Response (- 3)) vscount = (Some ''lost_object'', vscount) \<and>
   do_visual_servoing_execute ServiceException vscount = (Some ''failed'', 0) \<and>
   do_visual_servoing_execute (Response 1) vscount = (None, vscount) \<and>
   do_visual_servoing_execute (Response (- 4)) vscount = (None, vscount) \<and>
   fst (do_visual_servoing_execute (Response 1) vscount)
     \<notin> Some ` set do_visual_servoing_outcomes"
  by (simp add: do_visual_servoing_execute_def do_visual_servoing_outcomes_def)

subsection \<open>The loops of \<open>find_cavities\<close>\<close>

text \<open>
  The callback and the polling loop change the latched cavity only, and what a cycle
  appends does not depend on what was collected before. So every cycle of the loop over
  the selected objects is the function \<open>subject_wait\<close> of the state object at entry.
\<close>

text \<open>
  A wait ends once a poll sees the shutdown or reads the clock past the deadline.
\<close>

lemma await_cavity_ends:
  "\<exists>p\<in>set ps. shutdown p \<or> now p - start > find_cavities_timeout
    \<Longrightarrow> await_cavity obj start ps s l \<noteq> None"
proof (induction ps arbitrary: s)
  case Nil
  then show ?case by simp
next
  case (Cons p ps)
  show ?case
  proof (cases "shutdown p \<or> now p - start > find_cavities_timeout")
    case True
    then show ?thesis by (auto simp: Let_def split: option.splits)
  next
    case False
    with Cons.prems have "\<exists>p\<in>set ps. shutdown p \<or> now p - start > find_cavities_timeout"
      by simp
    from Cons.IH[OF this] show ?thesis by (simp add: Let_def split: option.splits)
  qed
qed

lemma foldl_cavity_cb_config: "(foldl cavity_cb s ds)\<lparr>cavity := x\<rparr> = s\<lparr>cavity := x\<rparr>"
  by (induction ds arbitrary: s) (simp_all add: cavity_cb_def)

lemma await_cavity_local:
  "await_cavity obj start ps s l =
     (case await_cavity obj start ps s [] of
        None \<Rightarrow> None
      | Some Return_timeout \<Rightarrow> Some Return_timeout
      | Some (Continue (s', l')) \<Rightarrow> Some (Continue (s', l @ l')))"
  by (induction ps arbitrary: s) (simp_all add: Let_def split: option.splits)

lemma await_cavity_config:
  "await_cavity obj start ps s l = Some (Continue (s', l'))
    \<Longrightarrow> s'\<lparr>cavity := None\<rparr> = s\<lparr>cavity := None\<rparr>"
proof (induction ps arbitrary: s)
  case Nil
  then show ?case by simp
next
  case (Cons p ps)
  show ?case
  proof (cases "shutdown p")
    case True
    with Cons.prems show ?thesis by simp
  next
    case False
    let ?s = "foldl cavity_cb s (deliveries p)"
    have c: "?s\<lparr>cavity := None\<rparr> = s\<lparr>cavity := None\<rparr>" by (rule foldl_cavity_cb_config)
    show ?thesis
    proof (cases "cavity ?s")
      case None
      with False Cons.prems have "await_cavity obj start ps ?s l = Some (Continue (s', l'))"
        by (simp add: Let_def split: if_splits)
      from Cons.IH[OF this] c show ?thesis by simp
    next
      case (Some c0)
      with False Cons.prems have "s' = ?s\<lparr>cavity := Some (c0\<lparr>object_name := name obj\<rparr>)\<rparr>"
        by (simp add: Let_def)
      then have "s'\<lparr>cavity := None\<rparr> = ?s\<lparr>cavity := None\<rparr>" by simp
      with c show ?thesis by simp
    qed
  qed
qed

lemma collect_Cons:
  assumes "s\<lparr>cavity := None\<rparr> = self\<lparr>cavity := None\<rparr>"
  shows "collect (obj # objs) i env s l tr =
     (case subject_wait self obj (env i) of
        None \<Rightarrow> None
      | Some Return_timeout \<Rightarrow> Some (Return_timeout, tr @ cycle_actions obj)
      | Some (Continue (s', l')) \<Rightarrow> collect objs (Suc i) env s' (l @ l') (tr @ cycle_actions obj))"
  using assms
  by (simp add: subject_wait_def cycle_actions_def Let_def
      await_cavity_local[of obj "start_time (env i)" "polls (env i)" "self\<lparr>cavity := None\<rparr>" l]
      split: option.splits step.splits)

lemma subject_wait_config:
  "subject_wait self obj e = Some (Continue (s', l'))
    \<Longrightarrow> s'\<lparr>cavity := None\<rparr> = self\<lparr>cavity := None\<rparr>"
  unfolding subject_wait_def by (drule await_cavity_config) simp

lemma collect_timeout:
  assumes "k < length objs"
    and "\<forall>j<k. subject_wait self (objs ! j) (env (i + j)) \<noteq> None \<and>
               subject_wait self (objs ! j) (env (i + j)) \<noteq> Some Return_timeout"
    and "subject_wait self (objs ! k) (env (i + k)) = Some Return_timeout"
    and "s\<lparr>cavity := None\<rparr> = self\<lparr>cavity := None\<rparr>"
  shows "collect objs i env s l tr =
           Some (Return_timeout, tr @ concat (map cycle_actions (take (Suc k) objs)))"
  using assms
proof (induction objs arbitrary: k i s l tr)
  case Nil
  then show ?case by simp
next
  case (Cons obj objs)
  show ?case
  proof (cases k)
    case 0
    with Cons.prems(3) have "subject_wait self obj (env i) = Some Return_timeout" by simp
    with 0 show ?thesis by (simp add: collect_Cons[OF Cons.prems(4)] del: collect.simps(2))
  next
    case (Suc k')
    from Cons.prems(2) Suc have w: "subject_wait self obj (env i) \<noteq> None"
      "subject_wait self obj (env i) \<noteq> Some Return_timeout" by force+
    then obtain s' l' where sw: "subject_wait self obj (env i) = Some (Continue (s', l'))"
      by (metis not_Some_eq step.exhaust surj_pair)
    have c: "s'\<lparr>cavity := None\<rparr> = self\<lparr>cavity := None\<rparr>"
      using sw by (rule subject_wait_config)
    have k': "k' < length objs" using Cons.prems(1) Suc by simp
    have a: "\<forall>j<k'. subject_wait self (objs ! j) (env (Suc i + j)) \<noteq> None \<and>
               subject_wait self (objs ! j) (env (Suc i + j)) \<noteq> Some Return_timeout"
    proof (intro allI impI)
      fix j assume "j < k'"
      then have "Suc j < k" using Suc by simp
      with Cons.prems(2) show "subject_wait self (objs ! j) (env (Suc i + j)) \<noteq> None \<and>
               subject_wait self (objs ! j) (env (Suc i + j)) \<noteq> Some Return_timeout"
        by fastforce
    qed
    have b: "subject_wait self (objs ! k') (env (Suc i + k')) = Some Return_timeout"
      using Cons.prems(3) Suc by simp
    from Cons.IH[OF k' a b c, of "l @ l'" "tr @ cycle_actions obj"] sw Suc
    show ?thesis by (simp add: collect_Cons[OF Cons.prems(4)] del: collect.simps(2))
  qed
qed

lemma collect_trace:
  "collect objs i env s l tr = Some (st, tr')
    \<Longrightarrow> \<exists>m\<le>length objs. tr' = tr @ concat (map cycle_actions (take m objs))"
proof (induction objs arbitrary: i s l tr)
  case Nil
  then show ?case by simp
next
  case (Cons obj objs)
  have c: "s\<lparr>cavity := None\<rparr> = s\<lparr>cavity := None\<rparr>" ..
  show ?case
  proof (cases "subject_wait s obj (env i)")
    case None
    with Cons.prems show ?thesis by (simp add: collect_Cons[OF c] del: collect.simps(2))
  next
    case (Some w)
    show ?thesis
    proof (cases w)
      case Return_timeout
      with Some Cons.prems have "tr' = tr @ concat (map cycle_actions (take 1 (obj # objs)))"
        by (simp add: collect_Cons[OF c] del: collect.simps(2))
      then show ?thesis by (intro exI[of _ 1]) simp
    next
      case (Continue sl)
      obtain s' l' where sl: "sl = (s', l')" by (cases sl)
      with Some Continue Cons.prems
      have "collect objs (Suc i) env s' (l @ l') (tr @ cycle_actions obj) = Some (st, tr')"
        by (simp add: collect_Cons[OF c] del: collect.simps(2))
      from Cons.IH[OF this] obtain m where "m \<le> length objs"
        "tr' = (tr @ cycle_actions obj) @ concat (map cycle_actions (take m objs))" by blast
      then show ?thesis by (intro exI[of _ "Suc m"]) simp
    qed
  qed
qed

lemma collect_entry_state:
  "collect objs i env (s\<lparr>cavity := c\<rparr>) l tr = collect objs i env s l tr"
  by (cases objs) simp_all

lemma cleared_cycles:
  "cleared_before_trigger CONTOUR_FINDER_EVENT_IN [''cavity''] seen
     (concat (map cycle_actions objs))"
  by (induction objs arbitrary: seen)
    (simp_all add: cycle_actions_def CONTOUR_FINDER_EVENT_IN_def OBJECT_NAME_TOPIC_def)

lemma published_cycles:
  "published CONTOUR_FINDER_EVENT_IN (concat (map cycle_actions objs))
     = replicate (length objs) ''e_trigger''"
  by (induction objs)
    (simp_all add: cycle_actions_def CONTOUR_FINDER_EVENT_IN_def OBJECT_NAME_TOPIC_def)

lemma execute_timeout_unchanged:
  "find_cavities_execute self transformPose env selected_objects found_cavities = Returned r
    \<Longrightarrow> outcome r = ''timeout'' \<Longrightarrow> userdata r = found_cavities"
  by (auto simp: find_cavities_execute_def Let_def split: option.splits step.splits if_splits)

text \<open>
  Claim C7. When the step does not return \<open>timeout\<close>, it has merged the collected
  cavities into \<open>found_cavities\<close> and returns \<open>succeeded\<close> exactly when the number of
  entries then equals the number of selected objects, and \<open>not_all_cavities_found\<close>
  otherwise. With three selected objects and two entries of distinct names the outcome
  is not \<open>succeeded\<close>.
\<close>

theorem required_count:
  assumes "find_cavities_execute self transformPose env selected_objects found_cavities = Returned r"
  shows "(outcome r \<noteq> ''timeout'' \<longrightarrow>
            (outcome r = ''succeeded'' \<longleftrightarrow> length (userdata r) = length selected_objects) \<and>
            (outcome r \<noteq> ''succeeded'' \<longrightarrow> outcome r = ''not_all_cavities_found'') \<and>
            (\<exists>local_found_cavities tr.
               collect selected_objects 0 env self [] [] = Some (Continue local_found_cavities, tr) \<and>
               userdata r = merge (matching_threshold self)
                 (case frame_id self of
                    None \<Rightarrow> local_found_cavities
                  | Some frame \<Rightarrow>
                      if frame = [] then local_found_cavities
                      else transform_poses transformPose frame 0 local_found_cavities)
                 found_cavities)) \<and>
         (length selected_objects = 3 \<and> distinct (map object_name (userdata r)) \<and>
          card (set (map object_name (userdata r))) = 2 \<longrightarrow> outcome r \<noteq> ''succeeded'')"
proof -
  have len: "length (userdata r) = 2"
    if "distinct (map object_name (userdata r))" "card (set (map object_name (userdata r))) = 2"
    using that distinct_card[of "map object_name (userdata r)"] by simp
  show ?thesis
  proof (cases "collect selected_objects 0 env self [] []")
    case None
    with assms show ?thesis by (simp add: find_cavities_execute_def)
  next
    case (Some a)
    obtain st tr where a: "a = (st, tr)" by (cases a)
    show ?thesis
    proof (cases st)
      case Return_timeout
      with Some a assms have "outcome r = ''timeout''"
        by (auto simp: find_cavities_execute_def)
      then show ?thesis by simp
    next
      case (Continue l)
      let ?F = "merge (matching_threshold self)
                 (case frame_id self of
                    None \<Rightarrow> l
                  | Some frame \<Rightarrow>
                      if frame = [] then l else transform_poses transformPose frame 0 l)
                 found_cavities"
      from Some a Continue assms
      have r: "r = \<lparr>outcome = (if length ?F = length selected_objects
                             then ''succeeded'' else ''not_all_cavities_found''),
                 userdata = ?F, trace = tr\<rparr>"
        by (simp add: find_cavities_execute_def Let_def)
      have c: "collect selected_objects 0 env self [] [] = Some (Continue l, tr)"
        using Some a Continue by simp
      show ?thesis
      proof (cases "length ?F = length selected_objects")
        case True
        then have "outcome r = ''succeeded''" "length (userdata r) = length selected_objects"
          "userdata r = ?F"
          using r by simp_all
        with c len show ?thesis by auto
      next
        case False
        then have "outcome r = ''not_all_cavities_found''"
          "length (userdata r) \<noteq> length selected_objects" "userdata r = ?F"
          using r by simp_all
        with c show ?thesis by auto
      qed
    qed
  qed
qed

theorem required_count_witness:
  "find_cavities_execute \<lparr>cavity = None, frame_id = None, matching_threshold = 1/10\<rparr>
     (\<lambda>k frame p. None)
     (\<lambda>i. [script [candidate ''x'' (3/100)], script [candidate ''x'' (5/100)],
            script [candidate ''x'' (2/10)]] ! i)
     [\<lparr>name = ''A''\<rparr>, \<lparr>name = ''B''\<rparr>, \<lparr>name = ''C''\<rparr>] [] =
   Returned \<lparr>outcome = ''not_all_cavities_found'',
             userdata = [candidate ''A'' (3/100), candidate ''B'' (5/100)],
             trace = [Clear ''cavity'', Publish OBJECT_NAME_TOPIC ''A'',
                      Publish CONTOUR_FINDER_EVENT_IN ''e_trigger'',
                      Clear ''cavity'', Publish OBJECT_NAME_TOPIC ''B'',
                      Publish CONTOUR_FINDER_EVENT_IN ''e_trigger'',
                      Clear ''cavity'', Publish OBJECT_NAME_TOPIC ''C'',
                      Publish CONTOUR_FINDER_EVENT_IN ''e_trigger'']\<rparr> \<and>
   length [\<lparr>name = ''A''\<rparr>, \<lparr>name = ''B''\<rparr>, \<lparr>name = ''C''\<rparr>] = 3 \<and>
   distinct (map object_name [candidate ''A'' (3/100), candidate ''B'' (5/100)]) \<and>
   card (set (map object_name [candidate ''A'' (3/100), candidate ''B'' (5/100)])) = 2 \<and>
   ''not_all_cavities_found'' \<noteq> ''succeeded''"
proof -
  have e: "find_cavities_execute \<lparr>cavity = None, frame_id = None, matching_threshold = 1/10\<rparr>
     (\<lambda>k frame p. None)
     (\<lambda>i. [script [candidate ''x'' (3/100)], script [candidate ''x'' (5/100)],
            script [candidate ''x'' (2/10)]] ! i)
     [\<lparr>name = ''A''\<rparr>, \<lparr>name = ''B''\<rparr>, \<lparr>name = ''C''\<rparr>] [] =
   Returned \<lparr>outcome = ''not_all_cavities_found'',
             userdata = [candidate ''A'' (3/100), candidate ''B'' (5/100)],
             trace = [Clear ''cavity'', Publish OBJECT_NAME_TOPIC ''A'',
                      Publish CONTOUR_FINDER_EVENT_IN ''e_trigger'',
                      Clear ''cavity'', Publish OBJECT_NAME_TOPIC ''B'',
                      Publish CONTOUR_FINDER_EVENT_IN ''e_trigger'',
                      Clear ''cavity'', Publish OBJECT_NAME_TOPIC ''C'',
                      Publish CONTOUR_FINDER_EVENT_IN ''e_trigger'']\<rparr>"
    by (simp add: find_cavities_execute_def script_def candidate_def cavity_cb_def
        find_cavities_timeout_def merge_one_eq better_def Let_def)
  from required_count[OF e] e show ?thesis
    by (simp add: candidate_def)
qed

text \<open>
  Claim C10. If the wait for the object at position \<open>k\<close> exceeds its deadline, the
  waits before it having ended otherwise, the step returns \<open>timeout\<close>,
  \<open>found_cavities\<close> is what it was at entry, and the trace holds the cycles of the
  objects up to position \<open>k\<close> only, so \<open>k + 1\<close> triggers were published. Whenever the
  step returns \<open>timeout\<close>, \<open>found_cavities\<close> is what it was at entry.
\<close>

theorem timeout_atomicity:
  "(k < length selected_objects \<and>
    (\<forall>j<k. subject_wait self (selected_objects ! j) (env j) \<noteq> None \<and>
            subject_wait self (selected_objects ! j) (env j) \<noteq> Some Return_timeout) \<and>
    subject_wait self (selected_objects ! k) (env k) = Some Return_timeout
    \<longrightarrow> find_cavities_execute self transformPose env selected_objects found_cavities =
          Returned \<lparr>outcome = ''timeout'', userdata = found_cavities,
                    trace = concat (map cycle_actions (take (Suc k) selected_objects))\<rparr> \<and>
        published CONTOUR_FINDER_EVENT_IN
          (concat (map cycle_actions (take (Suc k) selected_objects)))
          = replicate (Suc k) ''e_trigger'') \<and>
   (find_cavities_execute self transformPose env selected_objects found_cavities = Returned r \<and>
    outcome r = ''timeout'' \<longrightarrow> userdata r = found_cavities)"
proof -
  have "find_cavities_execute self transformPose env selected_objects found_cavities =
          Returned \<lparr>outcome = ''timeout'', userdata = found_cavities,
                    trace = concat (map cycle_actions (take (Suc k) selected_objects))\<rparr> \<and>
        published CONTOUR_FINDER_EVENT_IN
          (concat (map cycle_actions (take (Suc k) selected_objects)))
          = replicate (Suc k) ''e_trigger''"
    if k: "k < length selected_objects"
      and before: "\<forall>j<k. subject_wait self (selected_objects ! j) (env j) \<noteq> None \<and>
            subject_wait self (selected_objects ! j) (env j) \<noteq> Some Return_timeout"
      and at: "subject_wait self (selected_objects ! k) (env k) = Some Return_timeout"
  proof -
    have "collect selected_objects 0 env self [] [] =
        Some (Return_timeout, [] @ concat (map cycle_actions (take (Suc k) selected_objects)))"
      using k before at by (intro collect_timeout[where self = self]) simp_all
    moreover have "length (take (Suc k) selected_objects) = Suc k" using k by simp
    ultimately show ?thesis
      by (simp add: find_cavities_execute_def published_cycles)
  qed
  then show ?thesis using execute_timeout_unchanged[of self transformPose env selected_objects found_cavities r]
    by blast
qed

theorem timeout_atomicity_witness:
  "Suc 0 < length [\<lparr>name = ''A''\<rparr>, \<lparr>name = ''B''\<rparr>, \<lparr>name = ''C''\<rparr>] \<and>
   subject_wait \<lparr>cavity = None, frame_id = None, matching_threshold = 1/10\<rparr>
     ([\<lparr>name = ''A''\<rparr>, \<lparr>name = ''B''\<rparr>, \<lparr>name = ''C''\<rparr>] ! 0)
     ([script [candidate ''x'' (3/100)], script [], script [candidate ''x'' (3/100)]] ! 0)
       = Some (Continue
           (\<lparr>cavity = Some (candidate ''A'' (3/100)), frame_id = None,
              matching_threshold = 1/10\<rparr>, [candidate ''A'' (3/100)])) \<and>
   subject_wait \<lparr>cavity = None, frame_id = None, matching_threshold = 1/10\<rparr>
     ([\<lparr>name = ''A''\<rparr>, \<lparr>name = ''B''\<rparr>, \<lparr>name = ''C''\<rparr>] ! Suc 0)
     ([script [candidate ''x'' (3/100)], script [], script [candidate ''x'' (3/100)]] ! Suc 0)
       = Some Return_timeout \<and>
   find_cavities_execute \<lparr>cavity = None, frame_id = None, matching_threshold = 1/10\<rparr>
     (\<lambda>k frame p. None)
     (\<lambda>i. [script [candidate ''x'' (3/100)], script [], script [candidate ''x'' (3/100)]] ! i)
     [\<lparr>name = ''A''\<rparr>, \<lparr>name = ''B''\<rparr>, \<lparr>name = ''C''\<rparr>]
     [candidate ''Z'' (5/100)] =
   Returned \<lparr>outcome = ''timeout'', userdata = [candidate ''Z'' (5/100)],
             trace = [Clear ''cavity'', Publish OBJECT_NAME_TOPIC ''A'',
                      Publish CONTOUR_FINDER_EVENT_IN ''e_trigger'',
                      Clear ''cavity'', Publish OBJECT_NAME_TOPIC ''B'',
                      Publish CONTOUR_FINDER_EVENT_IN ''e_trigger'']\<rparr>"
proof -
  let ?self = "\<lparr>cavity = None, frame_id = None, matching_threshold = 1/10\<rparr> :: unit find_cavities"
  let ?sel = "[\<lparr>name = ''A''\<rparr>, \<lparr>name = ''B''\<rparr>, \<lparr>name = ''C''\<rparr>]"
  let ?envs = "[script [candidate ''x'' (3/100)], script [], script [candidate ''x'' (3/100)]]"
  have h1: "Suc 0 < length ?sel" by simp
  have h2: "\<forall>j<Suc 0. subject_wait ?self (?sel ! j) (?envs ! j) \<noteq> None \<and>
                    subject_wait ?self (?sel ! j) (?envs ! j) \<noteq> Some Return_timeout"
    by (simp add: subject_wait_def script_def cavity_cb_def Let_def)
  have h2': "subject_wait ?self (?sel ! 0) (?envs ! 0)
       = Some (Continue
           (\<lparr>cavity = Some (candidate ''A'' (3/100)), frame_id = None,
              matching_threshold = 1/10\<rparr>, [candidate ''A'' (3/100)]))"
    by (simp add: subject_wait_def script_def cavity_cb_def candidate_def Let_def)
  have h3: "subject_wait ?self (?sel ! Suc 0) (?envs ! Suc 0) = Some Return_timeout"
    by (simp add: subject_wait_def script_def find_cavities_timeout_def)
  have "find_cavities_execute ?self (\<lambda>k frame p. None) (\<lambda>i. ?envs ! i) ?sel
          [candidate ''Z'' (5/100)] =
        Returned \<lparr>outcome = ''timeout'', userdata = [candidate ''Z'' (5/100)],
                  trace = concat (map cycle_actions (take (Suc (Suc 0)) ?sel))\<rparr>"
    using timeout_atomicity[where k = "Suc 0" and selected_objects = ?sel and self = ?self
        and env = "\<lambda>i. ?envs ! i" and found_cavities = "[candidate ''Z'' (5/100)]"
        and transformPose = "\<lambda>k frame p. None", THEN conjunct1] h1 h2 h3
    by blast
  then have "find_cavities_execute ?self (\<lambda>k frame p. None) (\<lambda>i. ?envs ! i) ?sel
          [candidate ''Z'' (5/100)] =
        Returned \<lparr>outcome = ''timeout'', userdata = [candidate ''Z'' (5/100)],
             trace = [Clear ''cavity'', Publish OBJECT_NAME_TOPIC ''A'',
                      Publish CONTOUR_FINDER_EVENT_IN ''e_trigger'',
                      Clear ''cavity'', Publish OBJECT_NAME_TOPIC ''B'',
                      Publish CONTOUR_FINDER_EVENT_IN ''e_trigger'']\<rparr>"
    by (simp add: cycle_actions_def)
  moreover
  have "userdata \<lparr>outcome = ''timeout'', userdata = [candidate ''Z'' (5/100)],
             trace = [Clear ''cavity'', Publish OBJECT_NAME_TOPIC ''A'',
                      Publish CONTOUR_FINDER_EVENT_IN ''e_trigger'',
                      Clear ''cavity'', Publish OBJECT_NAME_TOPIC ''B'',
                      Publish CONTOUR_FINDER_EVENT_IN ''e_trigger'']\<rparr>
          = [candidate ''Z'' (5/100)]"
    using calculation
      timeout_atomicity[where selected_objects = ?sel and self = ?self
        and env = "\<lambda>i. ?envs ! i" and found_cavities = "[candidate ''Z'' (5/100)]"
        and transformPose = "\<lambda>k frame p. None", THEN conjunct2]
    by simp
  ultimately show ?thesis using h1 h2' h3 by blast
qed

subsection \<open>Reset before trigger\<close>

text \<open>
  Claim C8. In the trace of \<open>find_objects\<close> every trigger comes after \<open>object_list\<close>
  and \<open>event_msg\<close> were cleared, later than the trigger before it, and in the trace of
  \<open>find_cavities\<close> every trigger comes after \<open>cavity\<close> was cleared in the same way.
  What was latched before a cycle begins has no effect on the cycle, nor on the result
  of the step.
\<close>

theorem reset_before_trigger:
  "(find_objects_execute self env found_objects = Returned (r, s) \<longrightarrow>
      cleared_before_trigger EVENT_IN_TOPIC [''object_list'', ''event_msg''] [] (trace r)) \<and>
   attempt e (self\<lparr>object_list := stale_list, event_msg := stale_event\<rparr>) = attempt e self \<and>
   (1 \<le> retries self \<longrightarrow>
      find_objects_execute (self\<lparr>object_list := stale_list, event_msg := stale_event\<rparr>) env
        found_objects = find_objects_execute self env found_objects) \<and>
   (find_cavities_execute self' transformPose env' selected_objects found_cavities = Returned r'
      \<longrightarrow> cleared_before_trigger CONTOUR_FINDER_EVENT_IN [''cavity''] [] (trace r')) \<and>
   subject_wait (self'\<lparr>cavity := stale_cavity\<rparr>) obj e' = subject_wait self' obj e' \<and>
   find_cavities_execute (self'\<lparr>cavity := stale_cavity\<rparr>) transformPose env' selected_objects
     found_cavities
     = find_cavities_execute self' transformPose env' selected_objects found_cavities"
proof -
  have a: "cleared_before_trigger EVENT_IN_TOPIC [''object_list'', ''event_msg''] [] (trace r)"
    if "find_objects_execute self env found_objects = Returned (r, s)"
    using find_objects_trace[OF that] cleared_attempts by auto
  have b: "attempt e (self\<lparr>object_list := stale_list, event_msg := stale_event\<rparr>) = attempt e self"
    by (simp add: attempt_def)
  have c: "find_objects_execute (self\<lparr>object_list := stale_list, event_msg := stale_event\<rparr>) env
        found_objects = find_objects_execute self env found_objects"
    if "1 \<le> retries self"
  proof -
    from that have "int 0 < retries self" by simp
    then show ?thesis by (simp add: find_objects_execute_def attempts_entry_state)
  qed
  have d: "cleared_before_trigger CONTOUR_FINDER_EVENT_IN [''cavity''] [] (trace r')"
    if "find_cavities_execute self' transformPose env' selected_objects found_cavities = Returned r'"
  proof -
    from that obtain st tr where "collect selected_objects 0 env' self' [] [] = Some (st, tr)"
      and "trace r' = tr"
      by (auto simp: find_cavities_execute_def Let_def split: option.splits step.splits)
    with collect_trace[of selected_objects 0 env' self' "[]" "[]" st tr] cleared_cycles
    show ?thesis by auto
  qed
  have e: "subject_wait (self'\<lparr>cavity := stale_cavity\<rparr>) obj e' = subject_wait self' obj e'"
    by (simp add: subject_wait_def)
  have f: "find_cavities_execute (self'\<lparr>cavity := stale_cavity\<rparr>) transformPose env' selected_objects
     found_cavities
     = find_cavities_execute self' transformPose env' selected_objects found_cavities"
    by (simp add: find_cavities_execute_def collect_entry_state Let_def
        split: option.splits step.splits)
  from a b c d e f show ?thesis by blast
qed

theorem reset_before_trigger_witness:
  "find_objects_execute \<lparr>retries = 3, object_list = ObjectList [7::nat], event_msg = ''e_done''\<rparr>
     (\<lambda>i. [script [Event_out ''e_failed''], script [Object_list [1, 2], Event_out ''e_done''],
            script []] ! i) None
     = Returned (\<lparr>outcome = ''objects_found'', userdata = Some [1, 2],
                  trace = attempt_actions @ attempt_actions\<rparr>,
                 \<lparr>retries = 3, object_list = ObjectList [1, 2], event_msg = ''e_done''\<rparr>) \<and>
   cleared_before_trigger EVENT_IN_TOPIC [''object_list'', ''event_msg''] []
     (attempt_actions @ attempt_actions) \<and>
   1 \<le> retries \<lparr>retries = 3, object_list = ObjectList [7::nat], event_msg = ''e_done''\<rparr> \<and>
   find_objects_execute \<lparr>retries = 3, object_list = NoneValue, event_msg = ''''\<rparr>
     (\<lambda>i. [script [Event_out ''e_failed''], script [Object_list [1, 2], Event_out ''e_done''],
            script []] ! i) None
     = find_objects_execute \<lparr>retries = 3, object_list = ObjectList [7::nat], event_msg = ''e_done''\<rparr>
     (\<lambda>i. [script [Event_out ''e_failed''], script [Object_list [1, 2], Event_out ''e_done''],
            script []] ! i) None \<and>
   find_cavities_execute
     \<lparr>cavity = Some (candidate ''stale'' 0), frame_id = None, matching_threshold = 1/10\<rparr>
     (\<lambda>k frame p. None)
     (\<lambda>i. [script [candidate ''x'' (3/100)], script [candidate ''x'' (5/100)]] ! i)
     [\<lparr>name = ''A''\<rparr>, \<lparr>name = ''B''\<rparr>] []
     = Returned \<lparr>outcome = ''succeeded'',
                 userdata = [candidate ''A'' (3/100), candidate ''B'' (5/100)],
                 trace = cycle_actions \<lparr>name = ''A''\<rparr> @ cycle_actions \<lparr>name = ''B''\<rparr>\<rparr> \<and>
   cleared_before_trigger CONTOUR_FINDER_EVENT_IN [''cavity''] []
     (cycle_actions \<lparr>name = ''A''\<rparr> @ cycle_actions \<lparr>name = ''B''\<rparr>)"
proof -
  let ?self = "\<lparr>retries = 3, object_list = ObjectList [7::nat], event_msg = ''e_done''\<rparr>"
  let ?env = "\<lambda>i. [script [Event_out ''e_failed''], script [Object_list [1::nat, 2], Event_out ''e_done''],
            script []] ! i"
  let ?r = "\<lparr>outcome = ''objects_found'', userdata = Some [1::nat, 2],
                  trace = attempt_actions @ attempt_actions\<rparr>"
  let ?s = "\<lparr>retries = 3, object_list = ObjectList [1::nat, 2], event_msg = ''e_done''\<rparr>"
  let ?cself = "\<lparr>cavity = Some (candidate ''stale'' 0), frame_id = None, matching_threshold = 1/10\<rparr>"
  let ?cenv = "\<lambda>i. [script [candidate ''x'' (3/100)], script [candidate ''x'' (5/100)]] ! i"
  let ?sel = "[\<lparr>name = ''A''\<rparr>, \<lparr>name = ''B''\<rparr>]"
  let ?r' = "\<lparr>outcome = ''succeeded'',
                 userdata = [candidate ''A'' (3/100), candidate ''B'' (5/100)],
                 trace = cycle_actions \<lparr>name = ''A''\<rparr> @ cycle_actions \<lparr>name = ''B''\<rparr>\<rparr>"
  have e: "find_objects_execute ?self ?env None = Returned (?r, ?s)"
    by (simp add: attempt_def script_def find_objects_execute_def attempts.simps
        find_objects_timeout_def Let_def attempt_actions_def)
  have p: "1 \<le> retries ?self" by simp
  have c: "find_cavities_execute ?cself (\<lambda>k frame p. None) ?cenv ?sel [] = Returned ?r'"
    by (simp add: find_cavities_execute_def script_def candidate_def cavity_cb_def
        find_cavities_timeout_def merge_one_eq better_def Let_def cycle_actions_def)
  note t = reset_before_trigger[where self = ?self and env = ?env and found_objects = None
      and r = ?r and s = ?s and stale_list = NoneValue and stale_event = "''''"
      and self' = ?cself and transformPose = "\<lambda>k frame p. None" and env' = ?cenv
      and selected_objects = ?sel and found_cavities = "[]" and r' = ?r']
  from t e have 1: "cleared_before_trigger EVENT_IN_TOPIC [''object_list'', ''event_msg''] []
     (attempt_actions @ attempt_actions)" by simp
  from t p have 2: "find_objects_execute \<lparr>retries = 3, object_list = NoneValue, event_msg = ''''\<rparr>
     ?env None = find_objects_execute ?self ?env None" by simp
  from t c have 3: "cleared_before_trigger CONTOUR_FINDER_EVENT_IN [''cavity''] []
     (cycle_actions \<lparr>name = ''A''\<rparr> @ cycle_actions \<lparr>name = ''B''\<rparr>)" by simp
  from e p c 1 2 3 show ?thesis by blast
qed

end
